theory Spec2Isabelle
  imports Main "HOL-Library.Word" "HOL-Library.List_Lexorder"
begin

unbundle bit_operations_syntax

section \<open>The block reader of table/block.cc\<close>

text \<open>
  The embedding follows \<^verbatim>\<open>src/table/block.cc\<close> function by function.

  \<^item> The block buffer is a list of bytes; a pointer into it is the offset from
    \<^verbatim>\<open>data_\<close>, a natural number.
  \<^item> A \<^verbatim>\<open>uint32_t\<close> is a natural number. The wrap-around is written out
    where the operands are read from the buffer and can make it happen: the varint
    decoder, the sum \<^verbatim>\<open>non_shared + value_length\<close>, the offset just past the
    value, the arithmetic of the \<^verbatim>\<open>Block\<close> constructor, and the midpoint of the
    binary search of \<^verbatim>\<open>Seek\<close>. The other restart indices are counted up to
    \<^verbatim>\<open>num_restarts_\<close> or down to 0, one at a time; their arithmetic is plain.
  \<^item> An operation returns an option: \<open>None\<close> is a failed \<^verbatim>\<open>assert\<close>, the
    difference of two pointers into different objects, a key whose bytes run past
    the end of the buffer (the read is undefined, and crashes in practice), or a
    loop that does not end.
\<close>

type_synonym byte = "8 word"
type_synonym bytes = "byte list"

subsection \<open>Declarations that block.cc uses\<close>

text \<open>
  Modelled from the spec: \<^verbatim>\<open>Status\<close> (include/leveldb/status.h) is not under
  src/. The spec knows the status ok and the status Corruption with a message.
\<close>

datatype Status = OK | Corruption string

text \<open>
  Modelled from the spec: \<^verbatim>\<open>DecodeFixed32\<close> (util/coding.h) is not under src/.
  The spec (section 6) says every fixed-width integer is little-endian, 4 bytes.
\<close>

definition DecodeFixed32 :: "bytes \<Rightarrow> nat \<Rightarrow> nat" where
  "DecodeFixed32 d p =
     unat (d ! p) + 256 * unat (d ! (p + 1)) + 65536 * unat (d ! (p + 2))
       + 16777216 * unat (d ! (p + 3))"

text \<open>
  Modelled from the spec: \<^verbatim>\<open>GetVarint32Ptr\<close> (util/coding.h) is not under src/.
  The spec (section 4.1) says: variable-length, base-128, continuation-bit integer
  decoding, bounded by \<open>limit\<close>, failing when the decoding runs past \<open>limit\<close>. The
  result is a \<^verbatim>\<open>uint32_t\<close>, so at most five bytes are read (shifts 0, 7, ..., 28)
  and the bits above the 32nd are lost. The result is the value and the offset just
  past the varint.
\<close>

function GetVarint32PtrFallback ::
  "bytes \<Rightarrow> nat \<Rightarrow> nat \<Rightarrow> nat \<Rightarrow> 32 word \<Rightarrow> (nat \<times> nat) option" where
  "GetVarint32PtrFallback d p limit shift result =
     (if shift \<le> 28 \<and> p < limit then
        (let byte = (ucast (d ! p) :: 32 word) in
         if byte AND 128 \<noteq> 0
         then GetVarint32PtrFallback d (p + 1) limit (shift + 7)
                (result OR push_bit shift (byte AND 127))
         else Some (unat (result OR push_bit shift byte), p + 1))
      else None)"
  by pat_completeness auto
termination
  by (relation "measure (\<lambda>(d, p, limit, shift, result). 35 - shift)") auto

declare GetVarint32PtrFallback.simps [simp del]

definition GetVarint32Ptr :: "bytes \<Rightarrow> nat \<Rightarrow> nat \<Rightarrow> (nat \<times> nat) option" where
  "GetVarint32Ptr d p limit = GetVarint32PtrFallback d p limit 0 0"

subsection \<open>DecodeEntry\<close>

text \<open>
  \<^verbatim>\<open>DecodeEntry(p, limit, &shared, &non_shared, &value_length)\<close>: \<open>None\<close> is the
  \<^verbatim>\<open>nullptr\<close>; otherwise the three lengths and the offset of the key delta.
  \<^verbatim>\<open>limit - p\<close> is a signed pointer difference. The last test compares two
  \<^verbatim>\<open>uint32_t\<close>: the sum of the two lengths wraps around.
\<close>

definition DecodeEntry :: "bytes \<Rightarrow> nat \<Rightarrow> nat \<Rightarrow> (nat \<times> nat \<times> nat \<times> nat) option" where
  "DecodeEntry d p limit =
     (if int limit - int p < 3 then None
      else
        (let shared = unat (d ! p);
             non_shared = unat (d ! (p + 1));
             value_length = unat (d ! (p + 2))
         in case
              (if unat (d ! p OR d ! (p + 1) OR d ! (p + 2)) < 128
               then Some (shared, non_shared, value_length, p + 3)
               else
                 (case GetVarint32Ptr d p limit of
                    None \<Rightarrow> None
                  | Some (shared, p1) \<Rightarrow>
                      (case GetVarint32Ptr d p1 limit of
                         None \<Rightarrow> None
                       | Some (non_shared, p2) \<Rightarrow>
                           (case GetVarint32Ptr d p2 limit of
                              None \<Rightarrow> None
                            | Some (value_length, p3) \<Rightarrow>
                                Some (shared, non_shared, value_length, p3)))))
            of
              None \<Rightarrow> None
            | Some (shared, non_shared, value_length, q) \<Rightarrow>
                if (limit - q) mod 2 ^ 32 < (non_shared + value_length) mod 2 ^ 32
                then None
                else Some (shared, non_shared, value_length, q)))"

subsection \<open>Block\<close>

text \<open>
  Modelled from the spec: \<^verbatim>\<open>BlockContents\<close> (table/format.h) is not under src/;
  the spec (section 6) gives it the fields \<open>data\<close> and \<open>heap_allocated\<close>.
  The fields of \<^verbatim>\<open>Block\<close> are the ones its constructor initialises.
  \<^verbatim>\<open>restart_offset_\<close> stays uninitialised on the two error paths; the model
  keeps 0 there, and \<open>NewIterator\<close> does not read it when \<open>size = 0\<close>.
\<close>

record BlockContents =
  contents_data :: bytes
  heap_allocated :: bool

record Block =
  block_data :: bytes
  block_size :: nat
  owned :: bool
  restart_offset :: nat

text \<open>\<^verbatim>\<open>NumRestarts\<close>: \<open>None\<close> is the failed \<^verbatim>\<open>assert(size_ >= sizeof(uint32_t))\<close>.\<close>

definition NumRestarts :: "Block \<Rightarrow> nat option" where
  "NumRestarts b =
     (if block_size b \<ge> 4 then Some (DecodeFixed32 (block_data b) (block_size b - 4))
      else None)"

text \<open>
  The constructor. \<^verbatim>\<open>1 + NumRestarts()\<close> is a \<^verbatim>\<open>uint32_t\<close>; the product
  with \<^verbatim>\<open>sizeof(uint32_t)\<close> and the difference are \<^verbatim>\<open>size_t\<close>; the offset is
  stored in 32 bits.
\<close>

definition Block_init :: "BlockContents \<Rightarrow> Block option" where
  "Block_init contents =
     (let b = \<lparr>block_data = contents_data contents,
                block_size = length (contents_data contents),
                owned = heap_allocated contents,
                restart_offset = 0\<rparr>
      in if block_size b < 4 then Some (b\<lparr>block_size := 0\<rparr>)
         else
           (let max_restarts_allowed = (block_size b - 4) div 4
            in case NumRestarts b of
                 None \<Rightarrow> None
               | Some n \<Rightarrow>
                   if n > max_restarts_allowed then Some (b\<lparr>block_size := 0\<rparr>)
                   else Some (b\<lparr>restart_offset :=
                                  (block_size b - ((1 + n) mod 2 ^ 32) * 4) mod 2 ^ 32\<rparr>)))"

subsection \<open>Block::Iter\<close>

text \<open>
  Modelled from the spec: \<^verbatim>\<open>Slice\<close> (include/leveldb/slice.h) is not under
  src/. A slice is a pointer and a length. The pointer of \<^verbatim>\<open>value_\<close> is either
  \<^verbatim>\<open>data_ + n\<close> (set by \<^verbatim>\<open>SeekToRestartPoint\<close> and \<^verbatim>\<open>ParseNextKey\<close>) or the
  pointer of a default-constructed or cleared slice, which is no pointer into the
  block: the constructor of \<^verbatim>\<open>Iter\<close> does not initialise \<^verbatim>\<open>value_\<close>, and
  \<^verbatim>\<open>CorruptionError\<close> clears it.
\<close>

datatype ptr = InData nat | NotInData

text \<open>
  Modelled from the spec: \<^verbatim>\<open>Comparator\<close> (include/leveldb/comparator.h) is not
  under src/: section 6 makes it a function from two byte strings to less, equal
  or greater; \<^verbatim>\<open>Compare\<close> returns a negative, zero or positive \<^verbatim>\<open>int\<close>.
\<close>

record Iter =
  comparator :: "bytes \<Rightarrow> bytes \<Rightarrow> int"
  data :: bytes
  restarts :: nat
  num_restarts :: nat
  current :: nat
  restart_index :: nat
  key :: bytes
  value_data :: ptr
  value_size :: nat
  status :: Status

definition Compare :: "Iter \<Rightarrow> bytes \<Rightarrow> bytes \<Rightarrow> int" where
  "Compare it a b = comparator it a b"

text \<open>
  \<^verbatim>\<open>NextEntryOffset\<close>: \<^verbatim>\<open>(value_.data() + value_.size()) - data_\<close>, returned as
  \<^verbatim>\<open>uint32_t\<close>. There is no result when \<^verbatim>\<open>value_\<close> does not point into the block.
\<close>

definition NextEntryOffset :: "Iter \<Rightarrow> nat option" where
  "NextEntryOffset it =
     (case value_data it of
        InData p \<Rightarrow> Some ((p + value_size it) mod 2 ^ 32)
      | NotInData \<Rightarrow> None)"

text \<open>\<^verbatim>\<open>GetRestartPoint\<close>: \<open>None\<close> is the failed \<^verbatim>\<open>assert(index < num_restarts_)\<close>.\<close>

definition GetRestartPoint :: "Iter \<Rightarrow> nat \<Rightarrow> nat option" where
  "GetRestartPoint it index =
     (if index < num_restarts it
      then Some (DecodeFixed32 (data it) (restarts it + index * 4))
      else None)"

definition SeekToRestartPoint :: "Iter \<Rightarrow> nat \<Rightarrow> Iter option" where
  "SeekToRestartPoint it index =
     (case GetRestartPoint it index of
        None \<Rightarrow> None
      | Some offset \<Rightarrow>
          Some (it\<lparr>key := [], restart_index := index,
                   value_data := InData offset, value_size := 0\<rparr>))"

text \<open>The constructor; \<open>None\<close> is the failed \<^verbatim>\<open>assert(num_restarts_ > 0)\<close>.\<close>

definition Iter_init ::
  "(bytes \<Rightarrow> bytes \<Rightarrow> int) \<Rightarrow> bytes \<Rightarrow> nat \<Rightarrow> nat \<Rightarrow> Iter option" where
  "Iter_init cmp d restarts' num_restarts' =
     (if num_restarts' > 0
      then Some \<lparr>comparator = cmp, data = d, restarts = restarts',
                 num_restarts = num_restarts', current = restarts',
                 restart_index = num_restarts', key = [],
                 value_data = NotInData, value_size = 0, status = OK\<rparr>
      else None)"

definition Valid :: "Iter \<Rightarrow> bool" where
  "Valid it \<longleftrightarrow> current it < restarts it"

definition CorruptionError :: "Iter \<Rightarrow> Iter" where
  "CorruptionError it =
     it\<lparr>current := restarts it, restart_index := num_restarts it,
        status := Corruption ''bad entry in block'', key := [],
        value_data := NotInData, value_size := 0\<rparr>"

text \<open>
  The loop at the end of \<^verbatim>\<open>ParseNextKey\<close>, on the restart index alone:
  \<^verbatim>\<open>while (restart_index_ + 1 < num_restarts_ &&
         GetRestartPoint(restart_index_ + 1) < current_) ++restart_index_;\<close>
\<close>

function advance_restart_index :: "Iter \<Rightarrow> nat \<Rightarrow> nat option" where
  "advance_restart_index it ri =
     (if ri + 1 < num_restarts it
      then (case GetRestartPoint it (ri + 1) of
              None \<Rightarrow> None
            | Some offset \<Rightarrow>
                if offset < current it then advance_restart_index it (ri + 1)
                else Some ri)
      else Some ri)"
  by pat_completeness auto
termination
  by (relation "measure (\<lambda>(it, ri). num_restarts it - ri)") auto

declare advance_restart_index.simps [simp del]

text \<open>
  \<^verbatim>\<open>ParseNextKey\<close> returns its boolean and the new state.
  \<^verbatim>\<open>key_.append(p, non_shared)\<close> reads \<open>non_shared\<close> bytes of the buffer from
  \<open>p\<close> on. \<^verbatim>\<open>DecodeEntry\<close> does not keep them inside the buffer when its last
  test wraps around: there is no result when they run past the end of the buffer.
\<close>

definition ParseNextKey :: "Iter \<Rightarrow> (bool \<times> Iter) option" where
  "ParseNextKey it =
     (case NextEntryOffset it of
        None \<Rightarrow> None
      | Some c \<Rightarrow>
          (let it1 = it\<lparr>current := c\<rparr>; p = c; limit = restarts it in
           if p \<ge> limit
           then Some (False, it1\<lparr>current := restarts it,
                                  restart_index := num_restarts it\<rparr>)
           else
             (case DecodeEntry (data it) p limit of
                None \<Rightarrow> Some (False, CorruptionError it1)
              | Some (shared, non_shared, value_length, q) \<Rightarrow>
                  if length (key it1) < shared
                  then Some (False, CorruptionError it1)
                  else if length (data it) < q + non_shared then None
                  else
                    (let it2 = it1\<lparr>key := take shared (key it1)
                                          @ take non_shared (drop q (data it)),
                                   value_data := InData (q + non_shared),
                                   value_size := value_length\<rparr>
                     in case advance_restart_index it2 (restart_index it2) of
                          None \<Rightarrow> None
                        | Some ri \<Rightarrow> Some (True, it2\<lparr>restart_index := ri\<rparr>)))))"

text \<open>\<^verbatim>\<open>Next\<close>: \<open>None\<close> is the failed \<^verbatim>\<open>assert(Valid())\<close>.\<close>

definition Next :: "Iter \<Rightarrow> Iter option" where
  "Next it =
     (if Valid it then map_option snd (ParseNextKey it) else None)"

text \<open>
  The first loop of \<^verbatim>\<open>Prev\<close>, on the restart index: \<open>Some None\<close> is the
  return at index 0 (no more entries), \<open>Some (Some i)\<close> the index the loop ends with.
\<close>

fun Prev_restart_loop :: "Iter \<Rightarrow> nat \<Rightarrow> nat \<Rightarrow> nat option option" where
  "Prev_restart_loop it original ri =
     (case GetRestartPoint it ri of
        None \<Rightarrow> None
      | Some offset \<Rightarrow>
          if offset \<ge> original
          then (if ri = 0 then Some None
                else Prev_restart_loop it original (ri - 1))
          else Some (Some ri))"

declare Prev_restart_loop.simps [simp del]

text \<open>The second loop: \<^verbatim>\<open>do {} while (ParseNextKey() && NextEntryOffset() < original)\<close>.\<close>

partial_function (option) Prev_scan :: "Iter \<Rightarrow> nat \<Rightarrow> Iter option" where
  "Prev_scan it original =
     (case ParseNextKey it of
        None \<Rightarrow> None
      | Some (ok, it') \<Rightarrow>
          if ok
          then (case NextEntryOffset it' of
                  None \<Rightarrow> None
                | Some n \<Rightarrow> if n < original then Prev_scan it' original else Some it')
          else Some it')"

definition Prev :: "Iter \<Rightarrow> Iter option" where
  "Prev it =
     (if Valid it then
        (let original = current it in
         case Prev_restart_loop it original (restart_index it) of
           None \<Rightarrow> None
         | Some None \<Rightarrow>
             Some (it\<lparr>current := restarts it, restart_index := num_restarts it\<rparr>)
         | Some (Some ri) \<Rightarrow>
             (case SeekToRestartPoint (it\<lparr>restart_index := ri\<rparr>) ri of
                None \<Rightarrow> None
              | Some it1 \<Rightarrow> Prev_scan it1 original))
      else None)"

text \<open>
  The binary search of \<^verbatim>\<open>Seek\<close>. It changes no field; \<open>Some None\<close> is the
  return through \<^verbatim>\<open>CorruptionError\<close>, \<open>Some (Some left)\<close> the end of the loop.
  \<^verbatim>\<open>left\<close>, \<^verbatim>\<open>mid\<close> and \<^verbatim>\<open>right\<close> are \<^verbatim>\<open>uint32_t\<close>: the sum
  \<^verbatim>\<open>left + right + 1\<close> and the difference \<^verbatim>\<open>mid - 1\<close> wrap around.
  \<^verbatim>\<open>Slice mid_key(key_ptr, non_shared)\<close> is handed to the comparator, which reads it:
  there is no result when it runs past the end of the buffer.
\<close>

partial_function (option) Seek_restart_loop ::
  "Iter \<Rightarrow> bytes \<Rightarrow> nat \<Rightarrow> nat \<Rightarrow> nat option option" where
  "Seek_restart_loop it target left right =
     (if left < right then
        (let mid = ((left + right + 1) mod 2 ^ 32) div 2 in
         case GetRestartPoint it mid of
           None \<Rightarrow> None
         | Some region_offset \<Rightarrow>
             (case DecodeEntry (data it) region_offset (restarts it) of
                None \<Rightarrow> Some None
              | Some (shared, non_shared, value_length, key_ptr) \<Rightarrow>
                  if shared \<noteq> 0 then Some None
                  else if length (data it) < key_ptr + non_shared then None
                  else
                    (let mid_key = take non_shared (drop key_ptr (data it)) in
                     if Compare it mid_key target < 0
                     then Seek_restart_loop it target mid right
                     else Seek_restart_loop it target left
                            ((mid + 2 ^ 32 - 1) mod 2 ^ 32))))
      else Some (Some left))"

text \<open>The linear search of \<^verbatim>\<open>Seek\<close>.\<close>

partial_function (option) Seek_scan :: "Iter \<Rightarrow> bytes \<Rightarrow> Iter option" where
  "Seek_scan it target =
     (case ParseNextKey it of
        None \<Rightarrow> None
      | Some (ok, it') \<Rightarrow>
          if \<not> ok then Some it'
          else if Compare it' (key it') target \<ge> 0 then Some it'
          else Seek_scan it' target)"

text \<open>
  \<^verbatim>\<open>Seek\<close>. \<^verbatim>\<open>num_restarts_ - 1\<close> does not wrap, by the constructor's assertion.
  The assertion \<^verbatim>\<open>current_key_compare == 0 || Valid()\<close> is a branch of the model.
\<close>

definition Seek :: "Iter \<Rightarrow> bytes \<Rightarrow> Iter option" where
  "Seek it target =
     (let left = 0; right = num_restarts it - 1;
          current_key_compare = (if Valid it then Compare it (key it) target else 0)
      in if Valid it \<and> current_key_compare = 0 then Some it
         else
           (let left = (if Valid it \<and> current_key_compare < 0
                        then restart_index it else left);
                right = (if Valid it \<and> current_key_compare > 0
                         then restart_index it else right)
            in case Seek_restart_loop it target left right of
                 None \<Rightarrow> None
               | Some None \<Rightarrow> Some (CorruptionError it)
               | Some (Some left) \<Rightarrow>
                   if \<not> (current_key_compare = 0 \<or> Valid it) then None
                   else
                     (let skip_seek =
                            (left = restart_index it \<and> current_key_compare < 0)
                      in case (if \<not> skip_seek then SeekToRestartPoint it left
                               else Some it) of
                           None \<Rightarrow> None
                         | Some it1 \<Rightarrow> Seek_scan it1 target)))"

definition SeekToFirst :: "Iter \<Rightarrow> Iter option" where
  "SeekToFirst it =
     (case SeekToRestartPoint it 0 of
        None \<Rightarrow> None
      | Some it1 \<Rightarrow> map_option snd (ParseNextKey it1))"

partial_function (option) SeekToLast_scan :: "Iter \<Rightarrow> Iter option" where
  "SeekToLast_scan it =
     (case ParseNextKey it of
        None \<Rightarrow> None
      | Some (ok, it') \<Rightarrow>
          if ok
          then (case NextEntryOffset it' of
                  None \<Rightarrow> None
                | Some n \<Rightarrow> if n < restarts it' then SeekToLast_scan it' else Some it')
          else Some it')"

definition SeekToLast :: "Iter \<Rightarrow> Iter option" where
  "SeekToLast it =
     (case SeekToRestartPoint it (num_restarts it - 1) of
        None \<Rightarrow> None
      | Some it1 \<Rightarrow> SeekToLast_scan it1)"

subsection \<open>Block::NewIterator\<close>

text \<open>
  Modelled from the spec: \<^verbatim>\<open>NewErrorIterator\<close> and \<^verbatim>\<open>NewEmptyIterator\<close>
  (table/iterator.cc) are not under src/. Section 4.4: the always-invalid iterator
  has \<open>Valid()\<close> false forever and the status it was given, and every navigation call
  is a no-op; the always-empty iterator has \<open>Valid()\<close> false forever and status ok.
\<close>

datatype Iterator = ErrorIterator Status | EmptyIterator | BlockIter Iter

definition NewErrorIterator :: "Status \<Rightarrow> Iterator" where
  "NewErrorIterator s = ErrorIterator s"

definition NewEmptyIterator :: "Iterator" where
  "NewEmptyIterator = EmptyIterator"

definition NewIterator :: "Block \<Rightarrow> (bytes \<Rightarrow> bytes \<Rightarrow> int) \<Rightarrow> Iterator option" where
  "NewIterator b cmp =
     (if block_size b < 4
      then Some (NewErrorIterator (Corruption ''bad block contents''))
      else
        (case NumRestarts b of
           None \<Rightarrow> None
         | Some num_restarts' \<Rightarrow>
             if num_restarts' = 0 then Some NewEmptyIterator
             else map_option BlockIter
                    (Iter_init cmp (block_data b) (restart_offset b) num_restarts')))"

text \<open>The navigation calls of the iterator interface, and the interface itself.\<close>

datatype Op = OpNext | OpPrev | OpSeek bytes | OpSeekToFirst | OpSeekToLast

fun Iter_op :: "Op \<Rightarrow> Iter \<Rightarrow> Iter option" where
  "Iter_op OpNext it = Next it"
| "Iter_op OpPrev it = Prev it"
| "Iter_op (OpSeek target) it = Seek it target"
| "Iter_op OpSeekToFirst it = SeekToFirst it"
| "Iter_op OpSeekToLast it = SeekToLast it"

fun Iterator_op :: "Op \<Rightarrow> Iterator \<Rightarrow> Iterator option" where
  "Iterator_op op (ErrorIterator s) = Some (ErrorIterator s)"
| "Iterator_op op EmptyIterator = Some EmptyIterator"
| "Iterator_op op (BlockIter it) = map_option BlockIter (Iter_op op it)"

fun Iterator_Valid :: "Iterator \<Rightarrow> bool" where
  "Iterator_Valid (ErrorIterator s) = False"
| "Iterator_Valid EmptyIterator = False"
| "Iterator_Valid (BlockIter it) = Valid it"

fun Iterator_status :: "Iterator \<Rightarrow> Status" where
  "Iterator_status (ErrorIterator s) = s"
| "Iterator_status EmptyIterator = OK"
| "Iterator_status (BlockIter it) = status it"

text \<open>A sequence of navigation calls, one after the other.\<close>

fun Iter_ops :: "Op list \<Rightarrow> Iter \<Rightarrow> Iter option" where
  "Iter_ops [] it = Some it"
| "Iter_ops (op # ops) it =
     (case Iter_op op it of None \<Rightarrow> None | Some it' \<Rightarrow> Iter_ops ops it')"

fun Iterator_ops :: "Op list \<Rightarrow> Iterator \<Rightarrow> Iterator option" where
  "Iterator_ops [] i = Some i"
| "Iterator_ops (op # ops) i =
     (case Iterator_op op i of None \<Rightarrow> None | Some i' \<Rightarrow> Iterator_ops ops i')"

section \<open>Vocabulary of the properties\<close>

text \<open>
  The four \<^verbatim>\<open>const\<close> members of \<^verbatim>\<open>Iter\<close> are the same in two states.
\<close>

definition same_consts :: "Iter \<Rightarrow> Iter \<Rightarrow> bool" where
  "same_consts it it' \<longleftrightarrow>
     comparator it' = comparator it \<and> data it' = data it \<and>
     restarts it' = restarts it \<and> num_restarts it' = num_restarts it"

text \<open>
  Every entry header that \<open>DecodeEntry\<close> accepts, at any offset before the
  restart array, has its key delta inside the buffer.
\<close>

definition keys_in_buffer :: "Iter \<Rightarrow> bool" where
  "keys_in_buffer it \<longleftrightarrow>
     list_all
       (\<lambda>p. case DecodeEntry (data it) p (restarts it) of
              None \<Rightarrow> True
            | Some (shared, non_shared, value_length, q) \<Rightarrow>
                q + non_shared \<le> length (data it))
       [0..<restarts it]"

text \<open>
  The invariant of a live iterator: the constructor's assertion, a restart array
  inside a buffer whose size fits 32 bits, a restart index below
  \<^verbatim>\<open>num_restarts_\<close> and a value inside the block when the iterator is Valid, and
  the restart index \<^verbatim>\<open>num_restarts_\<close> when it is not.
\<close>

definition Iter_inv :: "Iter \<Rightarrow> bool" where
  "Iter_inv it \<longleftrightarrow>
     0 < num_restarts it \<and>
     restarts it + 4 * (num_restarts it + 1) \<le> length (data it) \<and>
     length (data it) < 2 ^ 32 \<and>
     (if Valid it
      then restart_index it < num_restarts it \<and> value_data it \<noteq> NotInData
      else restart_index it = num_restarts it)"

text \<open>
  What \<open>ParseNextKey\<close> needs to return and to keep the invariant.
\<close>

definition scan_pre :: "Iter \<Rightarrow> bool" where
  "scan_pre it \<longleftrightarrow>
     restarts it < 2 ^ 32 \<and> restart_index it < num_restarts it \<and>
     value_data it \<noteq> NotInData"

text \<open>
  The status is unchanged or is the one \<open>CorruptionError\<close> sets.
\<close>

definition status_kept :: "Iter \<Rightarrow> Iter \<Rightarrow> bool" where
  "status_kept it it' \<longleftrightarrow>
     status it' = status it \<or> status it' = Corruption ''bad entry in block''"

text \<open>
  What a scan gives: it has no result only when the key of some entry header runs
  past the end of the buffer; the state it returns has the same constants, the
  status kept, and is either Valid and ready for the next \<open>ParseNextKey\<close> or at the
  end with the restart index \<^verbatim>\<open>num_restarts_\<close>.
\<close>

definition scan_post :: "Iter \<Rightarrow> Iter option \<Rightarrow> bool" where
  "scan_post it r =
     (case r of
        None \<Rightarrow> \<not> keys_in_buffer it
      | Some it' \<Rightarrow>
          same_consts it it' \<and> status_kept it it' \<and>
          (if Valid it' then scan_pre it' else restart_index it' = num_restarts it'))"

text \<open>
  The bytes between the end of the current value and the restart array: what each
  successful \<open>ParseNextKey\<close> makes smaller.
\<close>

definition scan_measure :: "Iter \<Rightarrow> nat" where
  "scan_measure it =
     (case NextEntryOffset it of None \<Rightarrow> 0 | Some c \<Rightarrow> restarts it - c)"

text \<open>
  What every operation that returns guarantees.
\<close>

definition op_post :: "Iter \<Rightarrow> Iter \<Rightarrow> bool" where
  "op_post it it' \<longleftrightarrow> same_consts it it' \<and> status_kept it it' \<and> Iter_inv it'"

text \<open>
  What a navigation call gives when its assertion holds: it has no result only
  when the key of some entry header runs past the end of the buffer.
\<close>

definition op_result :: "Iter \<Rightarrow> Iter option \<Rightarrow> bool" where
  "op_result it r =
     (case r of None \<Rightarrow> \<not> keys_in_buffer it | Some it' \<Rightarrow> op_post it it')"

text \<open>
  What the binary search gives: no result only when a key runs past the end of
  the buffer, and otherwise the corruption return or an index between the bounds.
\<close>

definition loop_post :: "Iter \<Rightarrow> nat \<Rightarrow> nat \<Rightarrow> nat option option \<Rightarrow> bool" where
  "loop_post it left right r =
     (case r of
        None \<Rightarrow> \<not> keys_in_buffer it
      | Some None \<Rightarrow> True
      | Some (Some l) \<Rightarrow> left \<le> l \<and> l \<le> right)"

text \<open>
  A block is constructed from its contents and asked for an iterator.
\<close>

definition Block_NewIterator :: "BlockContents \<Rightarrow> (bytes \<Rightarrow> bytes \<Rightarrow> int) \<Rightarrow> Iterator option" where
  "Block_NewIterator contents cmp =
     (case Block_init contents of None \<Rightarrow> None | Some b \<Rightarrow> NewIterator b cmp)"

text \<open>
  The inputs of the examples. The comparator of the examples compares byte strings
  lexicographically, bytes as unsigned numbers. The example block is the one of the
  spec (section 8): the pairs ("a", "1"), ("ab", "2"), ("b", "3") with a restart
  interval of 2, that is the entries at the offsets 0, 5 and 10, the restart array
  [0, 10] at offset 15 and the count 2. \<open>example_at\<close> is the iterator of the example
  block on one of its entries.
\<close>

definition BytewiseCompare :: "bytes \<Rightarrow> bytes \<Rightarrow> int" where
  "BytewiseCompare a b = (if a < b then - 1 else if a = b then 0 else 1)"

definition example_data :: bytes where
  "example_data =
     [0, 1, 1, 0x61, 0x31,
      1, 1, 1, 0x62, 0x32,
      0, 1, 1, 0x62, 0x33,
      0, 0, 0, 0,  10, 0, 0, 0,
      2, 0, 0, 0]"

definition example_iter :: Iter where
  "example_iter =
     \<lparr>comparator = BytewiseCompare, data = example_data, restarts = 15,
      num_restarts = 2, current = 15, restart_index = 2, key = [],
      value_data = NotInData, value_size = 0, status = OK\<rparr>"

definition example_at :: "nat \<Rightarrow> nat \<Rightarrow> bytes \<Rightarrow> nat \<Rightarrow> Iter" where
  "example_at c ri k v =
     example_iter\<lparr>current := c, restart_index := ri, key := k,
                   value_data := InData v, value_size := 1\<rparr>"

text \<open>
  A block with one entry whose header is the three varints 0, 1 and \<open>2 ^ 32 - 1\<close>
  (shared, non_shared, value_length), followed by one key byte, the restart array [0]
  at offset 8 and the count 1.
\<close>

definition overflow_data :: bytes where
  "overflow_data =
     [0, 1, 0xFF, 0xFF, 0xFF, 0xFF, 0x0F, 0x6B,
      0, 0, 0, 0,
      1, 0, 0, 0]"

definition overflow_iter :: Iter where
  "overflow_iter =
     \<lparr>comparator = BytewiseCompare, data = overflow_data, restarts = 8,
      num_restarts = 1, current = 8, restart_index = 1, key = [],
      value_data = NotInData, value_size = 0, status = OK\<rparr>"

definition overflow_first :: Iter where
  "overflow_first =
     overflow_iter\<lparr>current := 0, restart_index := 0, key := [0x6B],
                    value_data := InData 8, value_size := 4294967295\<rparr>"

text \<open>
  A block with one entry whose header is the three varints 0, \<open>2 ^ 32 - 1\<close> and 1
  (shared, non_shared, value_length), followed by one byte, the restart array [0]
  at offset 8 and the count 1: the key of the entry runs past the end of the buffer.
\<close>

definition overread_data :: bytes where
  "overread_data =
     [0, 0xFF, 0xFF, 0xFF, 0xFF, 0x0F, 1, 0x6B,
      0, 0, 0, 0,
      1, 0, 0, 0]"

definition overread_iter :: Iter where
  "overread_iter =
     \<lparr>comparator = BytewiseCompare, data = overread_data, restarts = 8,
      num_restarts = 1, current = 8, restart_index = 1, key = [],
      value_data = NotInData, value_size = 0, status = OK\<rparr>"

text \<open>
  The offset that the restart array holds at index \<open>j\<close>.
\<close>

abbreviation restart_at :: "Iter \<Rightarrow> nat \<Rightarrow> nat" where
  "restart_at it j \<equiv> DecodeFixed32 (data it) (restarts it + j * 4)"

text \<open>
  An entry of the data model (spec, section 3), decoded: its offset, its
  \<open>shared\<close> length, its full key \<open>previous_key[0..shared] + key_suffix\<close>, and the view
  of its value.
\<close>

record entry =
  e_offset :: nat
  e_shared :: nat
  e_key :: bytes
  e_value_data :: nat
  e_value_size :: nat

definition next_offset :: "entry \<Rightarrow> nat" where
  "next_offset e = e_value_data e + e_value_size e"

text \<open>
  The entry that starts at offset \<open>p\<close> after an entry with the key \<open>prev_key\<close>:
  its header decodes, \<open>shared\<close> is at most the length of the previous key, and the key
  suffix and the value lie before \<open>limit\<close>.
\<close>

definition entry_at :: "bytes \<Rightarrow> nat \<Rightarrow> bytes \<Rightarrow> nat \<Rightarrow> entry option" where
  "entry_at d limit prev_key p =
     (case DecodeEntry d p limit of
        None \<Rightarrow> None
      | Some (shared, non_shared, value_length, q) \<Rightarrow>
          if shared \<le> length prev_key \<and> q + non_shared + value_length \<le> limit
          then Some \<lparr>e_offset = p, e_shared = shared,
                     e_key = take shared prev_key @ take non_shared (drop q d),
                     e_value_data = q + non_shared, e_value_size = value_length\<rparr>
          else None)"

text \<open>
  The entries from offset \<open>p\<close> up to \<open>limit\<close>, one after the other, without a gap.
\<close>

fun entries_from :: "bytes \<Rightarrow> nat \<Rightarrow> bytes \<Rightarrow> nat \<Rightarrow> entry list \<Rightarrow> bool" where
  "entries_from d limit prev_key p [] \<longleftrightarrow> p = limit"
| "entries_from d limit prev_key p (e # es) \<longleftrightarrow>
     p < limit \<and> entry_at d limit prev_key p = Some e \<and>
     entries_from d limit (e_key e) (next_offset e) es"

text \<open>
  A well-formed block, with the entries \<open>es\<close>, seen from an iterator over it
  (sections 3 and 6 of the spec). The buffer is the entry region, the restart array
  and the restart count, and its size fits 32 bits; there is at least one restart
  point; the entry region, from the first restart point on, is the entries \<open>es\<close>;
  the restart offsets are strictly increasing, and each one after the first is the
  offset of an entry with \<open>shared = 0\<close> (the first is the offset of the first entry,
  whose \<open>shared\<close> is 0 since no key precedes it); the keys are strictly ascending
  under the comparator. A block without entries is well-formed when its only restart
  point is the offset of the restart array.
\<close>

definition well_formed :: "Iter \<Rightarrow> entry list \<Rightarrow> bool" where
  "well_formed it es \<longleftrightarrow>
     0 < num_restarts it \<and>
     restarts it + 4 * (num_restarts it + 1) = length (data it) \<and>
     length (data it) < 2 ^ 32 \<and>
     DecodeFixed32 (data it) (length (data it) - 4) = num_restarts it \<and>
     entries_from (data it) (restarts it) [] (restart_at it 0) es \<and>
     sorted_wrt (<) (map (restart_at it) [0..<num_restarts it]) \<and>
     list_all (\<lambda>j. list_ex (\<lambda>e. e_offset e = restart_at it j \<and> e_shared e = 0) es)
       [1..<num_restarts it] \<and>
     sorted_wrt (\<lambda>a b. comparator it (e_key a) (e_key b) < 0) es"

text \<open>
  What the proofs use of the comparator being a total order.
\<close>

definition comparator_ok :: "(bytes \<Rightarrow> bytes \<Rightarrow> int) \<Rightarrow> bool" where
  "comparator_ok cmp \<longleftrightarrow> (\<forall>a b c. cmp a b < 0 \<and> cmp b c \<le> 0 \<longrightarrow> cmp a c < 0)"

text \<open>
  The offset of entry \<open>k\<close>, and the offset of the restart array for \<open>k = length es\<close>;
  the key that precedes entry \<open>k\<close>.
\<close>

definition offset_of :: "Iter \<Rightarrow> entry list \<Rightarrow> nat \<Rightarrow> nat" where
  "offset_of it es k = (if k < length es then e_offset (es ! k) else restarts it)"

definition prev_key :: "entry list \<Rightarrow> nat \<Rightarrow> bytes" where
  "prev_key es k = (if k = 0 then [] else e_key (es ! (k - 1)))"

text \<open>
  The states of an iterator over a well-formed block: on an entry, with a restart
  index; past the last entry; the restart index of a state on an entry is one whose
  restart point is at or before the entry, the next restart point being at or after
  it.
\<close>

definition at_entry :: "Iter \<Rightarrow> entry \<Rightarrow> nat \<Rightarrow> Iter" where
  "at_entry it e ri =
     it\<lparr>current := e_offset e, restart_index := ri, key := e_key e,
        value_data := InData (e_value_data e), value_size := e_value_size e\<rparr>"

definition past_end :: "Iter \<Rightarrow> entry list \<Rightarrow> Iter" where
  "past_end it es =
     (if es = []
      then it\<lparr>current := restarts it, restart_index := num_restarts it, key := [],
              value_data := InData (restart_at it 0), value_size := 0\<rparr>
      else (at_entry it (last es) (num_restarts it))\<lparr>current := restarts it\<rparr>)"

definition region_ok :: "Iter \<Rightarrow> nat \<Rightarrow> nat \<Rightarrow> bool" where
  "region_ok it off ri \<longleftrightarrow>
     ri < num_restarts it \<and> restart_at it ri \<le> off \<and>
     (ri + 1 < num_restarts it \<longrightarrow> off \<le> restart_at it (ri + 1))"

text \<open>
  The iterator shows the entry \<open>e\<close>: \<open>key()\<close> and \<open>value()\<close> are the entry's.
  A state is positioned when it is on an entry of the block, with a restart index
  of its region, or is not Valid.
\<close>

definition on_entry :: "Iter \<Rightarrow> entry \<Rightarrow> bool" where
  "on_entry it e \<longleftrightarrow>
     current it = e_offset e \<and> key it = e_key e \<and>
     value_data it = InData (e_value_data e) \<and> value_size it = e_value_size e"

definition positioned :: "Iter \<Rightarrow> entry list \<Rightarrow> bool" where
  "positioned it es \<longleftrightarrow>
     (if Valid it
      then list_ex (on_entry it) es \<and> region_ok it (current it) (restart_index it)
      else restart_index it = num_restarts it)"

text \<open>
  The index of the first entry whose key is not less than the target (the number of
  entries when there is none), the state that \<open>Seek\<close> returns, and the restart index
  that its binary search ends with: the last restart point before the offset \<open>off\<close>,
  or 0.
\<close>

definition seek_index :: "Iter \<Rightarrow> entry list \<Rightarrow> bytes \<Rightarrow> nat" where
  "seek_index it es target =
     length (takeWhile (\<lambda>e. Compare it (e_key e) target < 0) es)"

definition seek_result :: "Iter \<Rightarrow> entry list \<Rightarrow> bytes \<Rightarrow> nat \<Rightarrow> Iter" where
  "seek_result it es target ri =
     (if seek_index it es target < length es
      then at_entry it (es ! seek_index it es target) ri
      else past_end it es)"

definition restart_bound :: "Iter \<Rightarrow> nat \<Rightarrow> nat \<Rightarrow> bool" where
  "restart_bound it off ri \<longleftrightarrow>
     ri < num_restarts it \<and> (ri = 0 \<or> restart_at it ri < off) \<and>
     (ri + 1 < num_restarts it \<longrightarrow> off \<le> restart_at it (ri + 1))"

text \<open>
  The state after \<open>SeekToRestartPoint\<close>.
\<close>

definition restart_state :: "Iter \<Rightarrow> nat \<Rightarrow> Iter" where
  "restart_state it j =
     it\<lparr>key := [], restart_index := j,
        value_data := InData (restart_at it j), value_size := 0\<rparr>"

text \<open>
  The keys observed by repeated \<open>Next\<close>, and by repeated \<open>Prev\<close>, until the
  iterator is not Valid, starting with the key of the current entry; the keys
  observed from \<open>SeekToFirst\<close> on, and from \<open>SeekToLast\<close> on.
\<close>

partial_function (option) Next_keys :: "Iter \<Rightarrow> bytes list option" where
  "Next_keys it =
     (if Valid it
      then (case Next it of
              None \<Rightarrow> None
            | Some it' \<Rightarrow> Option.bind (Next_keys it') (\<lambda>ks. Some (key it # ks)))
      else Some [])"

partial_function (option) Prev_keys :: "Iter \<Rightarrow> bytes list option" where
  "Prev_keys it =
     (if Valid it
      then (case Prev it of
              None \<Rightarrow> None
            | Some it' \<Rightarrow> Option.bind (Prev_keys it') (\<lambda>ks. Some (key it # ks)))
      else Some [])"

definition keys_forward :: "Iter \<Rightarrow> bytes list option" where
  "keys_forward it =
     (case SeekToFirst it of None \<Rightarrow> None | Some it1 \<Rightarrow> Next_keys it1)"

definition keys_backward :: "Iter \<Rightarrow> bytes list option" where
  "keys_backward it =
     (case SeekToLast it of None \<Rightarrow> None | Some it1 \<Rightarrow> Prev_keys it1)"

text \<open>
  The state after \<open>Prev\<close> on the first entry.
\<close>

definition before_first :: "Iter \<Rightarrow> entry list \<Rightarrow> Iter" where
  "before_first it es =
     (at_entry it (es ! 0) (num_restarts it))\<lparr>current := restarts it\<rparr>"

text \<open>
  The entries of the example block.
\<close>

definition example_entries :: "entry list" where
  "example_entries =
     [\<lparr>e_offset = 0, e_shared = 0, e_key = [0x61], e_value_data = 4, e_value_size = 1\<rparr>,
      \<lparr>e_offset = 5, e_shared = 1, e_key = [0x61, 0x62], e_value_data = 9, e_value_size = 1\<rparr>,
      \<lparr>e_offset = 10, e_shared = 0, e_key = [0x62], e_value_data = 14, e_value_size = 1\<rparr>]"

section \<open>Properties\<close>

subsection \<open>Bounds of the decoders\<close>

lemma GetVarint32PtrFallback_bounds:
  "GetVarint32PtrFallback d p limit shift result = Some (v, p') \<Longrightarrow>
     p < p' \<and> p' \<le> limit \<and> v < 2 ^ 32"
proof (induction d p limit shift result rule: GetVarint32PtrFallback.induct)
  case (1 d p limit shift result)
  from "1.prems" have c: "shift \<le> 28" "p < limit"
    by (auto simp: GetVarint32PtrFallback.simps [of d p limit shift result] split: if_splits)
  show ?case
  proof (cases "(ucast (d ! p) :: 32 word) AND 128 \<noteq> 0")
    case True
    with "1.prems" c have
      "GetVarint32PtrFallback d (p + 1) limit (shift + 7)
         (result OR push_bit shift ((ucast (d ! p) :: 32 word) AND 127)) = Some (v, p')"
      by (simp add: GetVarint32PtrFallback.simps [of d p limit shift result] Let_def)
    from "1.IH" [OF _ refl True this] c show ?thesis by simp
  next
    case False
    with "1.prems" c have "v = unat (result OR push_bit shift (ucast (d ! p) :: 32 word))" "p' = p + 1"
      by (simp_all add: GetVarint32PtrFallback.simps [of d p limit shift result] Let_def)
    moreover have "unat (result OR push_bit shift (ucast (d ! p) :: 32 word)) < 2 ^ 32"
      using unsigned_less [of "result OR push_bit shift (ucast (d ! p) :: 32 word)", where 'a = nat] by simp
    ultimately show ?thesis using c by simp
  qed
qed

lemma GetVarint32Ptr_bounds:
  "GetVarint32Ptr d p limit = Some (v, p') \<Longrightarrow> p < p' \<and> p' \<le> limit \<and> v < 2 ^ 32"
  unfolding GetVarint32Ptr_def by (rule GetVarint32PtrFallback_bounds)

lemma DecodeEntry_bounds:
  assumes "DecodeEntry d p limit = Some (shared, non_shared, value_length, q)"
  shows "p + 3 \<le> q \<and> q \<le> limit \<and> (non_shared + value_length) mod 2 ^ 32 \<le> limit - q"
proof -
  from assms have l: "p + 3 \<le> limit"
    by (auto simp: DecodeEntry_def split: if_splits)
  show ?thesis
  proof (cases "unat (d ! p OR d ! (p + 1) OR d ! (p + 2)) < 128")
    case True
    with assms l have "q = p + 3" "\<not> (limit - q) mod 2 ^ 32 < (non_shared + value_length) mod 2 ^ 32"
      by (auto simp: DecodeEntry_def Let_def split: if_splits)
    moreover have "(limit - q) mod 2 ^ 32 \<le> limit - q" by simp
    ultimately show ?thesis using l by linarith
  next
    case False
    with assms l obtain s p1 ns p2 vl p3 where
      v: "GetVarint32Ptr d p limit = Some (s, p1)"
         "GetVarint32Ptr d p1 limit = Some (ns, p2)"
         "GetVarint32Ptr d p2 limit = Some (vl, p3)"
      and r: "q = p3" "\<not> (limit - q) mod 2 ^ 32 < (non_shared + value_length) mod 2 ^ 32"
      by (auto simp: DecodeEntry_def Let_def split: if_splits option.splits)
    from v [THEN GetVarint32Ptr_bounds] have "p + 3 \<le> p3" "p3 \<le> limit" by auto
    moreover have "(limit - q) mod 2 ^ 32 \<le> limit - q" by simp
    ultimately show ?thesis using r by linarith
  qed
qed

subsection \<open>ParseNextKey\<close>

lemma same_consts_refl [simp]: "same_consts it it"
  by (simp add: same_consts_def)

lemma same_consts_trans: "same_consts a b \<Longrightarrow> same_consts b c \<Longrightarrow> same_consts a c"
  by (simp add: same_consts_def)

lemma GetRestartPoint_same: "same_consts it it' \<Longrightarrow> GetRestartPoint it' j = GetRestartPoint it j"
  by (simp add: same_consts_def GetRestartPoint_def)

lemma advance_restart_index_result:
  "\<exists>r. advance_restart_index it ri = Some r \<and> ri \<le> r \<and>
       (ri < num_restarts it \<longrightarrow> r < num_restarts it) \<and>
       (num_restarts it \<le> ri \<longrightarrow> r = ri) \<and>
       (\<forall>j. ri < j \<and> j \<le> r \<longrightarrow> DecodeFixed32 (data it) (restarts it + j * 4) < current it) \<and>
       (r + 1 < num_restarts it \<longrightarrow>
          current it \<le> DecodeFixed32 (data it) (restarts it + (r + 1) * 4))"
proof (induction it ri rule: advance_restart_index.induct)
  case (1 it ri)
  show ?case
  proof (cases "ri + 1 < num_restarts it \<and> DecodeFixed32 (data it) (restarts it + (ri + 1) * 4) < current it")
    case True
    then have g: "GetRestartPoint it (ri + 1) = Some (DecodeFixed32 (data it) (restarts it + (ri + 1) * 4))"
      by (simp add: GetRestartPoint_def)
    from "1.IH" [OF _ g] True obtain r where
      r: "advance_restart_index it (ri + 1) = Some r" "ri + 1 \<le> r"
         "r < num_restarts it"
         "\<forall>j. ri + 1 < j \<and> j \<le> r \<longrightarrow> DecodeFixed32 (data it) (restarts it + j * 4) < current it"
         "r + 1 < num_restarts it \<longrightarrow>
            current it \<le> DecodeFixed32 (data it) (restarts it + (r + 1) * 4)"
      by auto
    have "advance_restart_index it ri = Some r"
      using True g r(1) by (subst advance_restart_index.simps) simp
    moreover have "\<forall>j. ri < j \<and> j \<le> r \<longrightarrow> DecodeFixed32 (data it) (restarts it + j * 4) < current it"
    proof (intro allI impI)
      fix j assume "ri < j \<and> j \<le> r"
      then have "j = ri + 1 \<or> (ri + 1 < j \<and> j \<le> r)" by arith
      then show "DecodeFixed32 (data it) (restarts it + j * 4) < current it"
        using True r(4) by auto
    qed
    ultimately show ?thesis using r True by auto
  next
    case False
    then have "advance_restart_index it ri = Some ri"
      by (subst advance_restart_index.simps) (auto simp: GetRestartPoint_def)
    then show ?thesis using False by auto
  qed
qed

lemma advance_restart_index_Some: "advance_restart_index it ri \<noteq> None"
  using advance_restart_index_result [of it ri] by auto

lemma keys_in_bufferD:
  assumes "keys_in_buffer it"
    and "DecodeEntry (data it) p (restarts it) = Some (shared, non_shared, value_length, q)"
  shows "q + non_shared \<le> length (data it)"
proof -
  from DecodeEntry_bounds [OF assms(2)] have "p < restarts it" by simp
  then have "p \<in> set [0..<restarts it]" by simp
  with assms(1) have
    "(case DecodeEntry (data it) p (restarts it) of
        None \<Rightarrow> True
      | Some (shared, non_shared, value_length, q) \<Rightarrow> q + non_shared \<le> length (data it))"
    unfolding keys_in_buffer_def list_all_iff by blast
  then show ?thesis by (simp add: assms(2))
qed

lemma keys_in_buffer_same:
  assumes "same_consts it it'"
  shows "keys_in_buffer it' = keys_in_buffer it"
proof -
  from assms have e: "data it' = data it" "restarts it' = restarts it"
    by (simp_all add: same_consts_def)
  show ?thesis unfolding keys_in_buffer_def e ..
qed

lemma ParseNextKey_None:
  "ParseNextKey it = None \<longleftrightarrow>
     value_data it = NotInData \<or>
     (\<exists>c shared non_shared value_length q.
        NextEntryOffset it = Some c \<and> c < restarts it \<and>
        DecodeEntry (data it) c (restarts it) = Some (shared, non_shared, value_length, q) \<and>
        shared \<le> length (key it) \<and> length (data it) < q + non_shared)"
  by (auto simp: ParseNextKey_def NextEntryOffset_def Let_def advance_restart_index_Some
           split: ptr.splits option.splits)

lemma ParseNextKey_Some:
  assumes "value_data it \<noteq> NotInData" "keys_in_buffer it"
  shows "ParseNextKey it \<noteq> None"
  using assms keys_in_bufferD [OF assms(2)] unfolding ParseNextKey_None
  by (metis not_less)

lemma ParseNextKey_False:
  assumes "ParseNextKey it = Some (False, it')"
  shows "same_consts it it' \<and> current it' = restarts it \<and>
         restart_index it' = num_restarts it \<and>
         (status it' = status it \<or> status it' = Corruption ''bad entry in block'')"
  using assms
  by (auto simp: ParseNextKey_def Let_def CorruptionError_def same_consts_def
           split: option.splits if_splits)

lemma ParseNextKey_True:
  assumes "ParseNextKey it = Some (True, it')"
  shows "same_consts it it' \<and> status it' = status it \<and>
         NextEntryOffset it = Some (current it') \<and> current it' < restarts it \<and>
         (\<exists>shared non_shared value_length q.
            DecodeEntry (data it) (current it') (restarts it)
              = Some (shared, non_shared, value_length, q) \<and>
            shared \<le> length (key it) \<and> q + non_shared \<le> length (data it) \<and>
            key it' = take shared (key it) @ take non_shared (drop q (data it)) \<and>
            value_data it' = InData (q + non_shared) \<and> value_size it' = value_length) \<and>
         restart_index it \<le> restart_index it' \<and>
         (restart_index it < num_restarts it \<longrightarrow> restart_index it' < num_restarts it) \<and>
         (num_restarts it \<le> restart_index it \<longrightarrow> restart_index it' = restart_index it) \<and>
         (\<forall>j. restart_index it < j \<and> j \<le> restart_index it' \<longrightarrow>
              DecodeFixed32 (data it) (restarts it + j * 4) < current it') \<and>
         (restart_index it' + 1 < num_restarts it \<longrightarrow>
            current it' \<le> DecodeFixed32 (data it) (restarts it + (restart_index it' + 1) * 4))"
proof -
  from assms obtain c where c: "NextEntryOffset it = Some c"
    by (auto simp: ParseNextKey_def split: option.splits)
  from assms c have lt: "c < restarts it"
    by (auto simp: ParseNextKey_def Let_def split: option.splits if_splits)
  from assms c lt obtain shared non_shared value_length q where
    d: "DecodeEntry (data it) c (restarts it) = Some (shared, non_shared, value_length, q)"
    by (auto simp: ParseNextKey_def Let_def split: option.splits if_splits)
  from assms c lt d have sh: "shared \<le> length (key it)"
    "q + non_shared \<le> length (data it)"
    by (auto simp: ParseNextKey_def Let_def split: option.splits if_splits)
  define it2 where "it2 = it\<lparr>current := c,
       key := take shared (key it) @ take non_shared (drop q (data it)),
       value_data := InData (q + non_shared), value_size := value_length\<rparr>"
  from assms c lt d sh obtain r where
    r: "advance_restart_index it2 (restart_index it2) = Some r" "it' = it2\<lparr>restart_index := r\<rparr>"
    by (auto simp: ParseNextKey_def Let_def it2_def split: option.splits if_splits)
  from advance_restart_index_result [of it2 "restart_index it2"] r(1)
  have p: "restart_index it2 \<le> r"
       "restart_index it2 < num_restarts it2 \<longrightarrow> r < num_restarts it2"
       "num_restarts it2 \<le> restart_index it2 \<longrightarrow> r = restart_index it2"
       "\<forall>j. restart_index it2 < j \<and> j \<le> r \<longrightarrow> DecodeFixed32 (data it2) (restarts it2 + j * 4) < current it2"
       "r + 1 < num_restarts it2 \<longrightarrow>
          current it2 \<le> DecodeFixed32 (data it2) (restarts it2 + (r + 1) * 4)"
    by auto
  have f: "restart_index it2 = restart_index it" "num_restarts it2 = num_restarts it"
     "data it2 = data it" "restarts it2 = restarts it" "current it2 = c"
     "comparator it2 = comparator it" "status it2 = status it"
     "key it2 = take shared (key it) @ take non_shared (drop q (data it))"
     "value_data it2 = InData (q + non_shared)" "value_size it2 = value_length"
    by (simp_all add: it2_def)
  show ?thesis
    using p c lt d sh unfolding r(2) f by (simp add: same_consts_def f)
qed

subsection \<open>The scans end\<close>

lemma status_kept_refl [simp]: "status_kept it it"
  by (simp add: status_kept_def)

lemma status_kept_trans: "status_kept a b \<Longrightarrow> status_kept b c \<Longrightarrow> status_kept a c"
  by (auto simp: status_kept_def)

lemma ParseNextKey_progress:
  assumes "restarts it < 2 ^ 32" and "ParseNextKey it = Some (True, it')"
  shows "\<exists>c'. NextEntryOffset it' = Some c' \<and> current it' < c' \<and> c' \<le> restarts it"
proof -
  from ParseNextKey_True [OF assms(2)] obtain shared non_shared value_length q where
    d: "DecodeEntry (data it) (current it') (restarts it)
          = Some (shared, non_shared, value_length, q)"
    and v: "value_data it' = InData (q + non_shared)" "value_size it' = value_length"
    by auto
  from DecodeEntry_bounds [OF d] have
    b: "current it' + 3 \<le> q" "q \<le> restarts it"
       "(non_shared + value_length) mod 2 ^ 32 \<le> restarts it - q"
    by auto
  have "(q + non_shared + value_length) mod 2 ^ 32
          = (q + (non_shared + value_length) mod 2 ^ 32) mod 2 ^ 32"
    by (simp add: add.assoc mod_add_right_eq)
  also have "\<dots> = q + (non_shared + value_length) mod 2 ^ 32"
    using b assms(1) by simp
  finally have "NextEntryOffset it' = Some (q + (non_shared + value_length) mod 2 ^ 32)"
    using v by (simp add: NextEntryOffset_def)
  then show ?thesis using b by simp
qed

lemma ParseNextKey_step:
  assumes "scan_pre it" "ParseNextKey it = Some (ok, it')"
  shows "same_consts it it' \<and> status_kept it it' \<and>
           (if ok
            then scan_pre it' \<and> Valid it' \<and>
                 (\<exists>c c'. NextEntryOffset it = Some c \<and> NextEntryOffset it' = Some c' \<and>
                          c < c' \<and> c' \<le> restarts it)
            else \<not> Valid it' \<and> restart_index it' = num_restarts it')"
proof -
  note p = assms(2)
  show ?thesis
  proof (cases ok)
    case True
    with p have pt: "ParseNextKey it = Some (True, it')" by simp
    note t = ParseNextKey_True [OF pt]
    from assms have r: "restarts it < 2 ^ 32" by (simp add: scan_pre_def)
    from ParseNextKey_progress [OF r pt] obtain c' where
      c': "NextEntryOffset it' = Some c'" "current it' < c'" "c' \<le> restarts it" by auto
    from t have s: "same_consts it it'" by simp
    have "scan_pre it'"
      using assms t c'(1) by (auto simp: scan_pre_def same_consts_def NextEntryOffset_def)
    moreover have "Valid it'" using t by (simp add: Valid_def same_consts_def)
    ultimately show ?thesis using p True t c' by (auto simp: status_kept_def)
  next
    case False
    with p have pf: "ParseNextKey it = Some (False, it')" by simp
    note f = ParseNextKey_False [OF pf]
    then show ?thesis using p False
      by (auto simp: status_kept_def Valid_def same_consts_def)
  qed
qed

lemma ParseNextKey_step_None:
  assumes "scan_pre it" "ParseNextKey it = None"
  shows "\<not> keys_in_buffer it"
  using assms ParseNextKey_Some [of it] by (auto simp: scan_pre_def)

lemma scan_measure_step:
  assumes "NextEntryOffset it = Some c" "NextEntryOffset it' = Some c'" "c < c'"
    "c' \<le> restarts it" "same_consts it it'"
  shows "scan_measure it' < scan_measure it"
  using assms by (simp add: scan_measure_def same_consts_def)

lemma scan_post_trans:
  assumes "same_consts it it1" "status_kept it it1" "scan_post it1 r"
  shows "scan_post it r"
  using assms keys_in_buffer_same [OF assms(1)] same_consts_trans [OF assms(1)]
    status_kept_trans [OF assms(2)]
  by (auto simp: scan_post_def split: option.splits)

lemma Seek_scan_total:
  "scan_pre it \<Longrightarrow> scan_post it (Seek_scan it target)"
proof (induction it rule: measure_induct_rule [of scan_measure])
  case (less it)
  show ?case
  proof (cases "ParseNextKey it")
    case None
    then have "Seek_scan it target = None"
      by (subst Seek_scan.simps) simp
    then show ?thesis
      using ParseNextKey_step_None [OF less.prems None] by (simp add: scan_post_def)
  next
    case (Some r)
    then obtain ok it1 where p1: "ParseNextKey it = Some (ok, it1)" by (cases r) simp
    note st = ParseNextKey_step [OF less.prems p1]
    from st have p: "same_consts it it1" "status_kept it it1" by simp_all
    note q = st [THEN conjunct2, THEN conjunct2]
    show ?thesis
    proof (cases "ok \<and> Compare it1 (key it1) target < 0")
      case True
      with q have m: "scan_measure it1 < scan_measure it" and s: "scan_pre it1"
        using scan_measure_step p(1) by auto
      have "Seek_scan it target = Seek_scan it1 target"
        using p1 True q by (subst Seek_scan.simps) auto
      then show ?thesis
        using scan_post_trans [OF p less.IH [OF m s]] by simp
    next
      case False
      then have "Seek_scan it target = Some it1"
        using p1 q by (subst Seek_scan.simps) (auto split: if_splits)
      then show ?thesis using p q by (auto simp: scan_post_def split: if_splits)
    qed
  qed
qed

lemma SeekToLast_scan_total:
  "scan_pre it \<Longrightarrow> scan_post it (SeekToLast_scan it)"
proof (induction it rule: measure_induct_rule [of scan_measure])
  case (less it)
  show ?case
  proof (cases "ParseNextKey it")
    case None
    then have "SeekToLast_scan it = None"
      by (subst SeekToLast_scan.simps) simp
    then show ?thesis
      using ParseNextKey_step_None [OF less.prems None] by (simp add: scan_post_def)
  next
    case (Some r)
    then obtain ok it1 where p1: "ParseNextKey it = Some (ok, it1)" by (cases r) simp
    note st = ParseNextKey_step [OF less.prems p1]
    from st have p: "same_consts it it1" "status_kept it it1" by simp_all
    note q = st [THEN conjunct2, THEN conjunct2]
    show ?thesis
    proof (cases "ok \<and> the (NextEntryOffset it1) < restarts it1")
      case True
      with q have m: "scan_measure it1 < scan_measure it" and s: "scan_pre it1"
        using scan_measure_step p(1) by auto
      have "SeekToLast_scan it = SeekToLast_scan it1"
        using p1 True q by (subst SeekToLast_scan.simps) auto
      then show ?thesis
        using scan_post_trans [OF p less.IH [OF m s]] by simp
    next
      case False
      then have "SeekToLast_scan it = Some it1"
        using p1 q by (subst SeekToLast_scan.simps) (auto split: if_splits)
      then show ?thesis using p q by (auto simp: scan_post_def split: if_splits)
    qed
  qed
qed

lemma Prev_scan_total:
  "scan_pre it \<Longrightarrow> scan_post it (Prev_scan it original)"
proof (induction it rule: measure_induct_rule [of scan_measure])
  case (less it)
  show ?case
  proof (cases "ParseNextKey it")
    case None
    then have "Prev_scan it original = None"
      by (subst Prev_scan.simps) simp
    then show ?thesis
      using ParseNextKey_step_None [OF less.prems None] by (simp add: scan_post_def)
  next
    case (Some r)
    then obtain ok it1 where p1: "ParseNextKey it = Some (ok, it1)" by (cases r) simp
    note st = ParseNextKey_step [OF less.prems p1]
    from st have p: "same_consts it it1" "status_kept it it1" by simp_all
    note q = st [THEN conjunct2, THEN conjunct2]
    show ?thesis
    proof (cases "ok \<and> the (NextEntryOffset it1) < original")
      case True
      with q have m: "scan_measure it1 < scan_measure it" and s: "scan_pre it1"
        using scan_measure_step p(1) by auto
      have "Prev_scan it original = Prev_scan it1 original"
        using p1 True q by (subst Prev_scan.simps) auto
      then show ?thesis
        using scan_post_trans [OF p less.IH [OF m s]] by simp
    next
      case False
      then have "Prev_scan it original = Some it1"
        using p1 q by (subst Prev_scan.simps) (auto split: if_splits)
      then show ?thesis using p q by (auto simp: scan_post_def split: if_splits)
    qed
  qed
qed

subsection \<open>The invariant of a live iterator\<close>

lemma Iter_inv_bounds:
  assumes "Iter_inv it"
  shows "0 < num_restarts it" "restarts it < 2 ^ 32" "num_restarts it < 2 ^ 30"
    "restarts it + 4 * (num_restarts it + 1) \<le> length (data it)"
    "length (data it) < 2 ^ 32"
  using assms by (simp_all add: Iter_inv_def)

lemma Iter_inv_scan_pre: "Iter_inv it \<Longrightarrow> Valid it \<Longrightarrow> scan_pre it"
  by (simp add: Iter_inv_def scan_pre_def)

lemma scan_result_inv:
  assumes "Iter_inv it" "same_consts it it'"
    "if Valid it' then scan_pre it' else restart_index it' = num_restarts it'"
  shows "Iter_inv it'"
  using assms by (auto simp: Iter_inv_def same_consts_def scan_pre_def split: if_splits)

lemma scan_post_op:
  assumes "Iter_inv it" "same_consts it it1" "status it1 = status it" "scan_post it1 r"
  shows "op_result it r"
proof (cases r)
  case None
  then show ?thesis
    using assms(4) keys_in_buffer_same [OF assms(2)] by (simp add: op_result_def scan_post_def)
next
  case (Some it')
  with assms(4) have p: "same_consts it1 it'" "status_kept it1 it'"
    "if Valid it' then scan_pre it' else restart_index it' = num_restarts it'"
    by (simp_all add: scan_post_def)
  have c: "same_consts it it'" using assms(2) p(1) by (rule same_consts_trans)
  have "Iter_inv it'" using scan_result_inv [OF assms(1) c p(3)] .
  moreover have "status_kept it it'" using p(2) assms(3) by (simp add: status_kept_def)
  ultimately show ?thesis using Some c by (simp add: op_result_def op_post_def)
qed

lemma SeekToRestartPoint_scan:
  assumes "j < num_restarts it" "restarts it < 2 ^ 32"
  shows "\<exists>it1. SeekToRestartPoint it j = Some it1 \<and> same_consts it it1 \<and>
           status it1 = status it \<and> scan_pre it1 \<and> restart_index it1 = j \<and> key it1 = [] \<and>
           value_data it1 = InData (DecodeFixed32 (data it) (restarts it + j * 4)) \<and>
           value_size it1 = 0 \<and> current it1 = current it"
  using assms
  by (simp add: SeekToRestartPoint_def GetRestartPoint_def same_consts_def scan_pre_def)

lemma Prev_restart_loop_total:
  "ri < num_restarts it \<Longrightarrow>
     \<exists>x. Prev_restart_loop it original ri = Some x \<and> (\<forall>r. x = Some r \<longrightarrow> r \<le> ri)"
proof (induction ri)
  case 0
  then show ?case
    by (subst Prev_restart_loop.simps) (simp add: GetRestartPoint_def)
next
  case (Suc ri)
  then obtain x where "Prev_restart_loop it original ri = Some x" "\<forall>r. x = Some r \<longrightarrow> r \<le> ri"
    by auto
  then show ?case using Suc.prems
    by (subst Prev_restart_loop.simps) (auto simp: GetRestartPoint_def)
qed

text \<open>
  One turn of the binary search when the sum \<open>left + right + 1\<close> does not wrap
  around: \<open>right\<close> is below \<open>2 ^ 31\<close>.
\<close>

lemma Seek_restart_loop_unfold:
  assumes "left < right" "right < 2 ^ 31" "(left + right + 1) div 2 < num_restarts it"
  shows "Seek_restart_loop it target left right =
     (case DecodeEntry (data it)
             (DecodeFixed32 (data it) (restarts it + ((left + right + 1) div 2) * 4))
             (restarts it) of
        None \<Rightarrow> Some None
      | Some (shared, non_shared, value_length, key_ptr) \<Rightarrow>
          if shared \<noteq> 0 then Some None
          else if length (data it) < key_ptr + non_shared then None
          else if Compare it (take non_shared (drop key_ptr (data it))) target < 0
               then Seek_restart_loop it target ((left + right + 1) div 2) right
               else Seek_restart_loop it target left ((left + right + 1) div 2 - 1))"
proof -
  have e1: "(left + right + 1) mod 2 ^ 32 = left + right + 1"
    using assms(1,2) by simp
  have "0 < (left + right + 1) div 2" "(left + right + 1) div 2 < 2 ^ 32"
    using assms(1,2) by simp_all
  then have e2: "((left + right + 1) div 2 + 2 ^ 32 - 1) mod 2 ^ 32
                   = (left + right + 1) div 2 - 1"
    by (simp add: mod_if)
  show ?thesis
    using assms(1,3)
    by (subst Seek_restart_loop.simps)
       (simp only: Let_def e1 e2, simp add: GetRestartPoint_def split: option.split)
qed

lemma loop_post_mono:
  assumes "loop_post it l' r' x" "l \<le> l'" "r' \<le> r"
  shows "loop_post it l r x"
  using assms by (auto simp: loop_post_def split: option.splits)

lemma Seek_restart_loop_total:
  "left \<le> right \<Longrightarrow> right < num_restarts it \<Longrightarrow> num_restarts it \<le> 2 ^ 31 \<Longrightarrow>
     loop_post it left right (Seek_restart_loop it target left right)"
proof (induction "right - left" arbitrary: left right rule: less_induct)
  case less
  show ?case
  proof (cases "left < right")
    case False
    then have "Seek_restart_loop it target left right = Some (Some left)"
      by (subst Seek_restart_loop.simps) simp
    then show ?thesis using less.prems by (simp add: loop_post_def)
  next
    case True
    let ?mid = "(left + right + 1) div 2"
    have m: "left < ?mid" "?mid \<le> right" using True by auto
    have a: "loop_post it left right (Seek_restart_loop it target ?mid right)"
      using less.hyps [of right ?mid] m less.prems
      by (intro loop_post_mono [of it ?mid right _ left right]) simp_all
    have b: "loop_post it left right (Seek_restart_loop it target left (?mid - 1))"
      using less.hyps [of "?mid - 1" left] m less.prems
      by (intro loop_post_mono [of it left "?mid - 1" _ left right]) simp_all
    have u: "?mid < num_restarts it" using m less.prems by simp
    have r: "right < 2 ^ 31" using less.prems by simp
    show ?thesis
    proof (cases "DecodeEntry (data it)
             (DecodeFixed32 (data it) (restarts it + ?mid * 4)) (restarts it)")
      case None
      then show ?thesis
        unfolding Seek_restart_loop_unfold [OF True r u] by (simp add: loop_post_def)
    next
      case (Some e)
      then obtain shared non_shared value_length key_ptr where
        d: "DecodeEntry (data it) (DecodeFixed32 (data it) (restarts it + ?mid * 4))
              (restarts it) = Some (shared, non_shared, value_length, key_ptr)"
        by (cases e) auto
      have k: "keys_in_buffer it \<Longrightarrow> key_ptr + non_shared \<le> length (data it)"
        using keys_in_bufferD [OF _ d] .
      show ?thesis
        unfolding Seek_restart_loop_unfold [OF True r u] d
        using a b k by (auto simp: loop_post_def)
    qed
  qed
qed

lemma Next_total:
  assumes "Iter_inv it" "Valid it"
  shows "op_result it (Next it)"
proof (cases "ParseNextKey it")
  case None
  then show ?thesis
    using ParseNextKey_step_None [OF Iter_inv_scan_pre [OF assms] None] assms(2)
    by (simp add: Next_def op_result_def)
next
  case (Some r)
  then obtain ok it' where p1: "ParseNextKey it = Some (ok, it')" by (cases r) simp
  note st = ParseNextKey_step [OF Iter_inv_scan_pre [OF assms] p1]
  have "scan_post it (Some it')"
    using st by (auto simp: scan_post_def split: if_splits)
  from scan_post_op [OF assms(1) same_consts_refl refl this] show ?thesis
    using p1 assms(2) by (simp add: Next_def)
qed

lemma SeekToFirst_total:
  assumes "Iter_inv it"
  shows "op_result it (SeekToFirst it)"
proof -
  from assms have b: "0 < num_restarts it" "restarts it < 2 ^ 32"
    by (simp_all add: Iter_inv_def)
  from SeekToRestartPoint_scan [OF b] obtain it1 where
    s: "SeekToRestartPoint it 0 = Some it1" "same_consts it it1" "status it1 = status it"
       "scan_pre it1" by auto
  have "scan_post it1 (map_option snd (ParseNextKey it1))"
  proof (cases "ParseNextKey it1")
    case None
    then show ?thesis
      using ParseNextKey_step_None [OF s(4) None] by (simp add: scan_post_def)
  next
    case (Some r)
    then obtain ok it' where p1: "ParseNextKey it1 = Some (ok, it')" by (cases r) simp
    note st = ParseNextKey_step [OF s(4) p1]
    then show ?thesis using p1 by (auto simp: scan_post_def split: if_splits)
  qed
  from scan_post_op [OF assms s(2,3) this] show ?thesis
    using s(1) by (simp add: SeekToFirst_def)
qed

lemma SeekToLast_total:
  assumes "Iter_inv it"
  shows "op_result it (SeekToLast it)"
proof -
  from assms have b: "num_restarts it - 1 < num_restarts it" "restarts it < 2 ^ 32"
    by (simp_all add: Iter_inv_def)
  from SeekToRestartPoint_scan [OF b] obtain it1 where
    s: "SeekToRestartPoint it (num_restarts it - 1) = Some it1" "same_consts it it1"
       "status it1 = status it" "scan_pre it1" by auto
  from scan_post_op [OF assms s(2,3) SeekToLast_scan_total [OF s(4)]] show ?thesis
    using s(1) by (simp add: SeekToLast_def)
qed

lemma Prev_total:
  assumes "Iter_inv it" "Valid it"
  shows "op_result it (Prev it)"
proof -
  from assms have b: "restart_index it < num_restarts it" "restarts it < 2 ^ 32"
    "0 < num_restarts it"
    by (simp_all add: Iter_inv_def)
  from Prev_restart_loop_total [OF b(1)] obtain x where
    x: "Prev_restart_loop it (current it) (restart_index it) = Some x"
       "\<forall>r. x = Some r \<longrightarrow> r \<le> restart_index it" by blast
  show ?thesis
  proof (cases x)
    case None
    have "Iter_inv (it\<lparr>current := restarts it, restart_index := num_restarts it\<rparr>)"
      using assms(1) by (simp add: Iter_inv_def Valid_def)
    then show ?thesis using x(1) None assms(2)
      by (simp add: Prev_def op_result_def op_post_def same_consts_def status_kept_def)
  next
    case (Some ri)
    with x(2) b have r: "ri < num_restarts (it\<lparr>restart_index := ri\<rparr>)"
      "restarts (it\<lparr>restart_index := ri\<rparr>) < 2 ^ 32" by auto
    from SeekToRestartPoint_scan [OF r] obtain it1 where
      s: "SeekToRestartPoint (it\<lparr>restart_index := ri\<rparr>) ri = Some it1"
         "same_consts (it\<lparr>restart_index := ri\<rparr>) it1"
         "status it1 = status (it\<lparr>restart_index := ri\<rparr>)" "scan_pre it1" by auto
    have c: "same_consts it it1" using s(2) by (simp add: same_consts_def)
    have t: "status it1 = status it" using s(3) by simp
    from scan_post_op [OF assms(1) c t Prev_scan_total [OF s(4)]] show ?thesis
      using x(1) Some s(1) assms(2) by (simp add: Prev_def)
  qed
qed

lemma CorruptionError_post: "Iter_inv it \<Longrightarrow> op_post it (CorruptionError it)"
  by (simp add: op_post_def Iter_inv_def CorruptionError_def Valid_def same_consts_def
        status_kept_def)

lemma Seek_total:
  assumes "Iter_inv it"
  shows "op_result it (Seek it target)"
proof (cases "Valid it \<and> Compare it (key it) target = 0")
  case True
  then have "Seek it target = Some it" by (simp add: Seek_def)
  then show ?thesis using assms by (simp add: op_result_def op_post_def)
next
  case False
  define c where "c = (if Valid it then Compare it (key it) target else 0)"
  define left where "left = (if Valid it \<and> c < 0 then restart_index it else 0)"
  define right where
    "right = (if Valid it \<and> c > 0 then restart_index it else num_restarts it - 1)"
  from assms have b: "restarts it < 2 ^ 32" "0 < num_restarts it"
    "Valid it \<Longrightarrow> restart_index it < num_restarts it" "num_restarts it \<le> 2 ^ 31"
    by (simp_all add: Iter_inv_def)
  have lr: "left \<le> right" "right < num_restarts it"
    using b by (auto simp: left_def right_def)
  note lp = Seek_restart_loop_total [OF lr b(4), of target]
  have unfold: "Seek it target =
     (case Seek_restart_loop it target left right of
        None \<Rightarrow> None
      | Some None \<Rightarrow> Some (CorruptionError it)
      | Some (Some l) \<Rightarrow>
         (case (if \<not> (l = restart_index it \<and> c < 0) then SeekToRestartPoint it l
                else Some it) of
            None \<Rightarrow> None
          | Some it1 \<Rightarrow> Seek_scan it1 target))"
    using False unfolding Seek_def Let_def c_def left_def right_def
    by (cases "Valid it") (simp_all split: option.split)
  show ?thesis
  proof (cases "Seek_restart_loop it target left right")
    case None
    then show ?thesis using unfold lp by (simp add: op_result_def loop_post_def)
  next
    case (Some x)
    show ?thesis
    proof (cases x)
      case None
      then show ?thesis using unfold Some CorruptionError_post [OF assms]
        by (simp add: op_result_def)
    next
      case (Some l)
      with lp \<open>Seek_restart_loop it target left right = Some x\<close> lr
      have l: "l < num_restarts it" by (simp add: loop_post_def)
      have "\<exists>it1. (if \<not> (l = restart_index it \<and> c < 0) then SeekToRestartPoint it l
                  else Some it) = Some it1 \<and> same_consts it it1 \<and> status it1 = status it \<and>
                scan_pre it1"
      proof (cases "l = restart_index it \<and> c < 0")
        case True
        then have "Valid it" by (auto simp: c_def split: if_splits)
        then show ?thesis using True Iter_inv_scan_pre [OF assms] by simp
      next
        case False
        then show ?thesis using SeekToRestartPoint_scan [OF l b(1)] by auto
      qed
      then obtain it1 where
        s: "(if \<not> (l = restart_index it \<and> c < 0) then SeekToRestartPoint it l
             else Some it) = Some it1" "same_consts it it1" "status it1 = status it"
           "scan_pre it1" by blast
      from scan_post_op [OF assms s(2,3) Seek_scan_total [OF s(4)]] show ?thesis
        using unfold Some \<open>Seek_restart_loop it target left right = Some x\<close> s(1)
        by simp
    qed
  qed
qed

lemma Iter_op_total:
  assumes "Iter_inv it"
  shows "case Iter_op op it of
           Some it' \<Rightarrow> op_post it it'
         | None \<Rightarrow> (op = OpNext \<or> op = OpPrev) \<and> \<not> Valid it \<or> \<not> keys_in_buffer it"
proof (cases op)
  case OpNext
  then show ?thesis using Next_total [OF assms]
    by (cases "Valid it") (auto simp: Next_def op_result_def split: option.splits)
next
  case OpPrev
  then show ?thesis using Prev_total [OF assms]
    by (cases "Valid it") (auto simp: Prev_def op_result_def split: option.splits)
next
  case (OpSeek t)
  then show ?thesis using Seek_total [OF assms, of t]
    by (auto simp: op_result_def split: option.splits)
next
  case OpSeekToFirst
  then show ?thesis using SeekToFirst_total [OF assms]
    by (auto simp: op_result_def split: option.splits)
next
  case OpSeekToLast
  then show ?thesis using SeekToLast_total [OF assms]
    by (auto simp: op_result_def split: option.splits)
qed

lemma Iter_init_inv:
  "Iter_init cmp d r n = Some it \<Longrightarrow> r + 4 * (n + 1) \<le> length d \<Longrightarrow>
     length d < 2 ^ 32 \<Longrightarrow> Iter_inv it"
  by (auto simp: Iter_init_def Iter_inv_def Valid_def split: if_splits)

lemma Iter_ops_inv:
  "Iter_inv it \<Longrightarrow> Iter_ops ops it = Some it' \<Longrightarrow> op_post it it'"
proof (induction ops arbitrary: it)
  case Nil
  then show ?case by (simp add: op_post_def)
next
  case (Cons op ops)
  from Cons.prems(2) obtain it1 where
    s: "Iter_op op it = Some it1" "Iter_ops ops it1 = Some it'"
    by (auto split: option.splits)
  from Iter_op_total [OF Cons.prems(1), of op] s(1) have p: "op_post it it1" by simp
  then have "Iter_inv it1" by (simp add: op_post_def)
  from Cons.IH [OF this s(2)] p show ?case
    unfolding op_post_def using same_consts_trans status_kept_trans by blast
qed

lemma Seek_unfold:
  assumes "\<not> (Valid it \<and> Compare it (key it) t = 0)"
  shows "Seek it t =
     (case Seek_restart_loop it t
             (if Valid it \<and> Compare it (key it) t < 0 then restart_index it else 0)
             (if Valid it \<and> Compare it (key it) t > 0 then restart_index it
              else num_restarts it - 1) of
        None \<Rightarrow> None
      | Some None \<Rightarrow> Some (CorruptionError it)
      | Some (Some l) \<Rightarrow>
          (case (if \<not> (l = restart_index it \<and> Valid it \<and> Compare it (key it) t < 0)
                 then SeekToRestartPoint it l else Some it) of
             None \<Rightarrow> None
           | Some it1 \<Rightarrow> Seek_scan it1 t))"
  using assms unfolding Seek_def Let_def
  by (cases "Valid it") (simp_all split: option.split)

subsection \<open>DecodeEntry and the corruption state\<close>

text \<open>What \<open>DecodeEntry\<close> does on the two paths, and the bound that its last test gives.\<close>

lemma DecodeEntry_short:
  "int limit - int p < 3 \<Longrightarrow> DecodeEntry d p limit = None"
  by (simp add: DecodeEntry_def)

lemma DecodeEntry_fast:
  assumes "p + 3 \<le> limit" "unat (d ! p OR d ! (p + 1) OR d ! (p + 2)) < 128"
  shows "DecodeEntry d p limit =
           (if (limit - (p + 3)) mod 2 ^ 32
                 < (unat (d ! (p + 1)) + unat (d ! (p + 2))) mod 2 ^ 32
            then None
            else Some (unat (d ! p), unat (d ! (p + 1)), unat (d ! (p + 2)), p + 3))"
  using assms by (simp add: DecodeEntry_def)

lemma DecodeEntry_slow:
  assumes "p + 3 \<le> limit" "\<not> unat (d ! p OR d ! (p + 1) OR d ! (p + 2)) < 128"
  shows "DecodeEntry d p limit =
           (case GetVarint32Ptr d p limit of
              None \<Rightarrow> None
            | Some (shared, p1) \<Rightarrow>
                (case GetVarint32Ptr d p1 limit of
                   None \<Rightarrow> None
                 | Some (non_shared, p2) \<Rightarrow>
                     (case GetVarint32Ptr d p2 limit of
                        None \<Rightarrow> None
                      | Some (value_length, p3) \<Rightarrow>
                          if (limit - p3) mod 2 ^ 32 < (non_shared + value_length) mod 2 ^ 32
                          then None
                          else Some (shared, non_shared, value_length, p3))))"
  using assms by (simp add: DecodeEntry_def split: option.split)

text \<open>The transitions to the corruption state, and its persistence.\<close>

lemma CorruptionError_state:
  "\<not> Valid (CorruptionError it) \<and>
   status (CorruptionError it) = Corruption ''bad entry in block'' \<and>
   restart_index (CorruptionError it) = num_restarts it"
  by (simp add: CorruptionError_def Valid_def)

lemma ParseNextKey_corrupt:
  assumes "NextEntryOffset it = Some c" "c < restarts it"
    and "DecodeEntry (data it) c (restarts it) = None \<or>
         (\<exists>shared non_shared value_length q.
            DecodeEntry (data it) c (restarts it) = Some (shared, non_shared, value_length, q) \<and>
            length (key it) < shared)"
  shows "ParseNextKey it = Some (False, CorruptionError (it\<lparr>current := c\<rparr>))"
  using assms by (auto simp: ParseNextKey_def Let_def)

lemma Seek_restart_loop_corrupt:
  assumes "left < right" "right < 2 ^ 31" "(left + right + 1) div 2 < num_restarts it"
    and "DecodeEntry (data it) (DecodeFixed32 (data it) (restarts it + ((left + right + 1) div 2) * 4)) (restarts it) = None \<or>
         (\<exists>shared non_shared value_length q.
            DecodeEntry (data it) (DecodeFixed32 (data it) (restarts it + ((left + right + 1) div 2) * 4)) (restarts it)
              = Some (shared, non_shared, value_length, q) \<and> shared \<noteq> 0)"
  shows "Seek_restart_loop it t left right = Some None"
  using assms(4) unfolding Seek_restart_loop_unfold [OF assms(1,2,3)] by auto

lemma Seek_corrupt:
  assumes "\<not> (Valid it \<and> Compare it (key it) t = 0)"
    and "Seek_restart_loop it t
           (if Valid it \<and> Compare it (key it) t < 0 then restart_index it else 0)
           (if Valid it \<and> Compare it (key it) t > 0 then restart_index it
            else num_restarts it - 1) = Some None"
  shows "Seek it t = Some (CorruptionError it)"
  unfolding Seek_unfold [OF assms(1)] assms(2) by simp

lemma status_persists:
  assumes "Iter_inv it" "status it \<noteq> OK" "Iter_ops ops it = Some it'"
  shows "status it' \<noteq> OK"
  using Iter_ops_inv [OF assms(1,3)] assms(2) by (auto simp: op_post_def status_kept_def)

text \<open>
  The value that a successful \<open>ParseNextKey\<close> sets ends at or before the restart
  array when the sum of the two lengths of the entry does not wrap around.
\<close>

lemma value_in_region:
  assumes "ParseNextKey it = Some (True, it')"
    and "\<And>shared non_shared value_length q.
           DecodeEntry (data it) (current it') (restarts it)
             = Some (shared, non_shared, value_length, q) \<Longrightarrow>
           non_shared + value_length < 2 ^ 32"
  shows "\<exists>p. value_data it' = InData p \<and> current it' < p \<and>
             p + value_size it' \<le> restarts it"
proof -
  from ParseNextKey_True [OF assms(1)] obtain shared non_shared value_length q where
    d: "DecodeEntry (data it) (current it') (restarts it)
          = Some (shared, non_shared, value_length, q)"
    and v: "value_data it' = InData (q + non_shared)" "value_size it' = value_length"
    by auto
  from DecodeEntry_bounds [OF d] assms(2) [OF d] have
    "current it' + 3 \<le> q" "q \<le> restarts it" "non_shared + value_length \<le> restarts it - q"
    by simp_all
  then show ?thesis using v by simp
qed

subsection \<open>Construction, decoding and the invariant: claims C3, C4, C5, C7, C9 and C10\<close>

lemmas example_eval =
  example_data_def example_iter_def example_at_def BytewiseCompare_def
  Block_NewIterator_def Block_init_def NumRestarts_def NewIterator_def
  NewErrorIterator_def NewEmptyIterator_def Iter_init_def
  DecodeFixed32_def DecodeEntry_def GetVarint32Ptr_def GetVarint32PtrFallback.simps
  GetRestartPoint_def SeekToRestartPoint_def NextEntryOffset_def ParseNextKey_def
  advance_restart_index.simps CorruptionError_def Valid_def Compare_def
  Next_def Prev_def Prev_restart_loop.simps Prev_scan.simps
  Seek_def Seek_restart_loop.simps Seek_scan.simps
  SeekToFirst_def SeekToLast_def SeekToLast_scan.simps

lemma Iterator_ops_Error: "Iterator_ops ops (ErrorIterator s) = Some (ErrorIterator s)"
  by (induction ops) simp_all

lemma Iterator_ops_Empty: "Iterator_ops ops EmptyIterator = Some EmptyIterator"
  by (induction ops) simp_all

text \<open>
  Claim C3. A block is built from a buffer and asked for an iterator. When the buffer
  has fewer than 4 bytes, or its last 4 bytes, read as a little-endian count, exceed
  \<open>(size - 4) div 4\<close>, the block gets size 0 and the iterator is the always-invalid
  one with status Corruption "bad block contents"; otherwise, when the count is 0, the
  iterator is the always-empty one; otherwise it is a live iterator over the buffer,
  in the state the constructor of \<^verbatim>\<open>Iter\<close> gives it. The two degenerate iterators
  stay invalid, with their status, under every sequence of navigation calls.
\<close>

theorem NewIterator_cases:
  "Block_NewIterator c cmp =
     (let d = contents_data c; size = length d; n = DecodeFixed32 d (size - 4) in
      if size < 4 \<or> n > (size - 4) div 4
      then Some (ErrorIterator (Corruption ''bad block contents''))
      else if n = 0 then Some EmptyIterator
      else Some (BlockIter
             \<lparr>comparator = cmp, data = d,
              restarts = (size - ((1 + n) mod 2 ^ 32) * 4) mod 2 ^ 32,
              num_restarts = n,
              current = (size - ((1 + n) mod 2 ^ 32) * 4) mod 2 ^ 32,
              restart_index = n, key = [],
              value_data = NotInData, value_size = 0, status = OK\<rparr>))
   \<and> (length (contents_data c) < 4 \<or>
        DecodeFixed32 (contents_data c) (length (contents_data c) - 4)
          > (length (contents_data c) - 4) div 4
      \<longrightarrow> map_option block_size (Block_init c) = Some 0)
   \<and> (\<forall>ops s. \<exists>i. Iterator_ops ops (ErrorIterator s) = Some i \<and>
          \<not> Iterator_Valid i \<and> Iterator_status i = s)
   \<and> (\<forall>ops. \<exists>i. Iterator_ops ops EmptyIterator = Some i \<and>
          \<not> Iterator_Valid i \<and> Iterator_status i = OK)"
  by (simp add: Block_NewIterator_def Block_init_def NewIterator_def NumRestarts_def
        Iter_init_def NewErrorIterator_def NewEmptyIterator_def Let_def
        Iterator_ops_Error Iterator_ops_Empty)

text \<open>
  The three cases at a buffer of 3 bytes, at the buffer of a block without restart
  points, and at the example block.
\<close>

theorem NewIterator_cases_witness:
  "Block_NewIterator \<lparr>contents_data = [1, 0, 0], heap_allocated = False\<rparr> BytewiseCompare
     = Some (ErrorIterator (Corruption ''bad block contents'')) \<and>
   map_option block_size (Block_init \<lparr>contents_data = [1, 0, 0], heap_allocated = False\<rparr>)
     = Some 0 \<and>
   Block_NewIterator \<lparr>contents_data = [0, 0, 0, 0], heap_allocated = False\<rparr> BytewiseCompare
     = Some EmptyIterator \<and>
   Block_NewIterator \<lparr>contents_data = example_data, heap_allocated = False\<rparr> BytewiseCompare
     = Some (BlockIter example_iter)"
  using NewIterator_cases [of "\<lparr>contents_data = [1, 0, 0], heap_allocated = False\<rparr>" BytewiseCompare]
    NewIterator_cases [of "\<lparr>contents_data = [0, 0, 0, 0], heap_allocated = False\<rparr>" BytewiseCompare]
    NewIterator_cases [of "\<lparr>contents_data = example_data, heap_allocated = False\<rparr>" BytewiseCompare]
  by (simp add: Let_def DecodeFixed32_def example_data_def example_iter_def)

text \<open>
  Claim C5, at the failing input. The entry header is the three varints 0, 1 and
  \<open>2 ^ 32 - 1\<close>; one byte is left up to \<open>limit\<close>. The sum of the two lengths is
  computed in 32 bits and wraps to 0, so \<open>DecodeEntry\<close> does not fail although
  \<open>non_shared + value_length\<close> exceeds the bytes that remain.
\<close>

theorem DecodeEntry_length_overflow:
  "DecodeEntry overflow_data 0 8 = Some (0, 1, 4294967295, 7) \<and>
   8 - 7 < (1::nat) + 4294967295"
  by (simp add: overflow_data_def DecodeEntry_def GetVarint32Ptr_def
        GetVarint32PtrFallback.simps)

text \<open>
  Claim C10, at the failing input: the same entry, in a block of 16 bytes whose
  restart array starts at offset 8. \<open>ParseNextKey\<close> succeeds, and the value is the
  view of \<open>2 ^ 32 - 1\<close> bytes that starts at offset 8: it covers the restart array and
  ends far past the buffer.
\<close>

theorem value_past_restart_offset:
  "Block_NewIterator \<lparr>contents_data = overflow_data, heap_allocated = False\<rparr> BytewiseCompare
     = Some (BlockIter overflow_iter) \<and>
   SeekToFirst overflow_iter = Some overflow_first \<and>
   Valid overflow_first \<and>
   value_data overflow_first = InData 8 \<and> value_size overflow_first = 4294967295 \<and>
   restarts overflow_first = 8 \<and> length (data overflow_first) = 16"
  by (simp add: overflow_data_def overflow_iter_def overflow_first_def example_eval)

text \<open>
  Claim C4, at the failing input: \<open>Seek\<close> decodes the same entry, whose lengths
  overrun the entry region, and the iterator ends Valid with status ok instead of
  Invalid with a Corruption status.
\<close>

theorem overrun_entry_not_reported:
  "Seek overflow_iter [0x6B] = Some overflow_first \<and>
   DecodeEntry (data overflow_iter) 0 (restarts overflow_iter) = Some (0, 1, 4294967295, 7) \<and>
   restarts overflow_iter - 7 < (1::nat) + 4294967295 \<and>
   Valid overflow_first \<and> status overflow_first = OK"
  by (simp add: overflow_data_def overflow_iter_def overflow_first_def example_eval)

text \<open>
  Claim C7 as stated fails on the example block: after \<open>SeekToFirst\<close> and two
  \<open>Next\<close> the iterator is on the entry at offset 10, which is restart point 1, and
  \<open>restart_index\<close> is still 0: the next restart point's offset equals the offset of
  the current entry and is not greater.
\<close>

theorem restart_index_advance_counterexample:
  "Iter_ops [OpSeekToFirst, OpNext] example_iter = Some (example_at 5 0 [0x61, 0x62] 9) \<and>
   ParseNextKey (example_at 5 0 [0x61, 0x62] 9) = Some (True, example_at 10 0 [0x62] 14) \<and>
   restart_index (example_at 10 0 [0x62] 14) + 1 < num_restarts (example_at 10 0 [0x62] 14) \<and>
   GetRestartPoint (example_at 10 0 [0x62] 14) (restart_index (example_at 10 0 [0x62] 14) + 1)
     = Some 10 \<and>
   current (example_at 10 0 [0x62] 14) = 10"
  by (simp add: example_eval)

text \<open>
  Claim C7, amended. On every successful \<open>ParseNextKey\<close> the restart index moves
  forward over the restart points whose offset is strictly less than the offset of
  the new entry; after the call the restart point at index \<open>restart_index + 1\<close>, if
  there is one, has an offset greater than or equal to the offset of the current entry.
\<close>

theorem restart_index_advance:
  assumes "ParseNextKey it = Some (True, it')"
  shows "restart_index it \<le> restart_index it' \<and>
    (\<forall>j. restart_index it < j \<and> j \<le> restart_index it' \<longrightarrow>
       (\<exists>offset. GetRestartPoint it' j = Some offset \<and> offset < current it')) \<and>
    (restart_index it' + 1 < num_restarts it' \<longrightarrow>
       (\<exists>offset. GetRestartPoint it' (restart_index it' + 1) = Some offset \<and>
          current it' \<le> offset))"
proof -
  note t = ParseNextKey_True [OF assms]
  from t have s: "same_consts it it'" by simp
  have g: "\<And>j. j < num_restarts it \<Longrightarrow>
     GetRestartPoint it' j = Some (DecodeFixed32 (data it) (restarts it + j * 4))"
    using s by (simp add: GetRestartPoint_def same_consts_def)
  have n: "num_restarts it' = num_restarts it" using s by (simp add: same_consts_def)
  have "\<forall>j. restart_index it < j \<and> j \<le> restart_index it' \<longrightarrow>
       (\<exists>offset. GetRestartPoint it' j = Some offset \<and> offset < current it')"
  proof (intro allI impI)
    fix j assume j: "restart_index it < j \<and> j \<le> restart_index it'"
    with t have "restart_index it < num_restarts it"
      by (metis leD leI le_less_trans)
    with t j have "j < num_restarts it" by auto
    with g t j show "\<exists>offset. GetRestartPoint it' j = Some offset \<and> offset < current it'"
      by auto
  qed
  then show ?thesis using t g n by auto
qed

text \<open>
  The amended claim at the step of the example block that refutes the original.
\<close>

theorem restart_index_advance_witness:
  "ParseNextKey (example_at 5 0 [0x61, 0x62] 9) = Some (True, example_at 10 0 [0x62] 14) \<and>
   restart_index (example_at 5 0 [0x61, 0x62] 9) \<le> restart_index (example_at 10 0 [0x62] 14) \<and>
   restart_index (example_at 10 0 [0x62] 14) + 1 < num_restarts (example_at 10 0 [0x62] 14) \<and>
   (\<exists>offset. GetRestartPoint (example_at 10 0 [0x62] 14)
                (restart_index (example_at 10 0 [0x62] 14) + 1) = Some offset \<and>
      current (example_at 10 0 [0x62] 14) \<le> offset)"
proof -
  have p: "ParseNextKey (example_at 5 0 [0x61, 0x62] 9) = Some (True, example_at 10 0 [0x62] 14)"
    by (simp add: example_eval)
  have q: "restart_index (example_at 10 0 [0x62] 14) + 1 < num_restarts (example_at 10 0 [0x62] 14)"
    by (simp add: example_eval)
  from restart_index_advance [OF p] p q show ?thesis by blast
qed

text \<open>
  The iterator that \<open>NewIterator\<close> returns over a buffer whose size fits 32 bits
  has its restart array, and the count after it, at the end of the buffer.
\<close>

lemma NewIterator_live:
  assumes "Block_NewIterator c cmp = Some (BlockIter it)"
    and "length (contents_data c) < 2 ^ 32"
  shows "\<exists>r n. Iter_init cmp (contents_data c) r n = Some it \<and>
               r + 4 * (n + 1) = length (contents_data c)"
proof -
  let ?d = "contents_data c"
  let ?size = "length ?d"
  let ?n = "DecodeFixed32 ?d (?size - 4)"
  let ?r = "(?size - ((1 + ?n) mod 2 ^ 32) * 4) mod 2 ^ 32"
  from assms(1) have b: "4 \<le> ?size" "?n \<le> (?size - 4) div 4"
    by (auto simp: Block_NewIterator_def Block_init_def NewIterator_def NumRestarts_def
          NewErrorIterator_def NewEmptyIterator_def Let_def split: if_splits)
  from assms(1) have i: "Iter_init cmp ?d ?r ?n = Some it"
    by (auto simp: Block_NewIterator_def Block_init_def NewIterator_def NumRestarts_def
          NewErrorIterator_def NewEmptyIterator_def Let_def split: if_splits)
  have e1: "(1 + ?n) mod 2 ^ 32 = 1 + ?n" using b assms(2) by simp
  have le: "(1 + ?n) * 4 \<le> ?size" using b by simp
  then have e2: "(?size - (1 + ?n) * 4) mod 2 ^ 32 = ?size - (1 + ?n) * 4"
    using assms(2) by simp
  have "?r + 4 * (?n + 1) = ?size"
    by (simp only: e1 e2) (use le in simp)
  with i show ?thesis by blast
qed

text \<open>
  On the block whose entry declares a key of \<open>2 ^ 32 - 1\<close> bytes, \<open>DecodeEntry\<close>
  accepts the header, because the sum of the two lengths wraps around to 0, and
  the calls that parse the entry have no result: the key is read past the end of
  the buffer.
\<close>

lemma key_past_buffer:
  "DecodeEntry overread_data 0 8 = Some (0, 4294967295, 1, 7) \<and>
   length overread_data = 16 \<and>
   SeekToFirst overread_iter = None \<and> SeekToLast overread_iter = None \<and>
   Seek overread_iter [0x6B] = None \<and>
   \<not> keys_in_buffer overread_iter"
proof -
  have d: "DecodeEntry (data overread_iter) 0 (restarts overread_iter)
             = Some (0, 4294967295, 1, 7)"
    by (simp add: overread_data_def overread_iter_def DecodeEntry_def GetVarint32Ptr_def
          GetVarint32PtrFallback.simps)
  have "\<not> keys_in_buffer overread_iter"
    using keys_in_bufferD [OF _ d] by (auto simp: overread_data_def overread_iter_def)
  moreover have "SeekToFirst overread_iter = None" "SeekToLast overread_iter = None"
    "Seek overread_iter [0x6B] = None"
    by (simp_all add: overread_data_def overread_iter_def example_eval)
  ultimately show ?thesis using d by (simp add: overread_iter_def) (simp add: overread_data_def)
qed

text \<open>
  Claim C9. A live iterator is constructed over a buffer of less than \<open>2 ^ 32\<close>
  bytes that holds the restart array (\<open>n\<close> offsets, then the count) from offset \<open>r\<close>
  on, as every iterator that \<open>NewIterator\<close> returns over such a buffer is. After
  the construction and after every sequence of \<open>Next\<close>, \<open>Prev\<close>, \<open>Seek\<close>,
  \<open>SeekToFirst\<close> and \<open>SeekToLast\<close> that it completes, \<open>Valid()\<close> holds exactly
  when \<open>current < restarts\<close>, and an iterator that is not Valid has
  \<open>restart_index = num_restarts\<close>. A call has no result only in two cases:
  \<open>Next\<close> or \<open>Prev\<close> on an iterator that is not Valid, whose assertion fails;
  and a buffer in which some entry header that \<open>DecodeEntry\<close> accepts declares a
  key that runs past the end of the buffer.
\<close>

theorem Iter_invariant:
  assumes "Iter_init cmp d r n = Some it0"
    and "r + 4 * (n + 1) \<le> length d" and "length d < 2 ^ 32"
    and "Iter_ops ops it0 = Some it"
  shows "(Valid it \<longleftrightarrow> current it < restarts it) \<and>
         (\<not> Valid it \<longrightarrow> restart_index it = num_restarts it) \<and>
         (\<forall>op. Iter_op op it = None \<longrightarrow>
            (op = OpNext \<or> op = OpPrev) \<and> \<not> Valid it \<or> \<not> keys_in_buffer it0)"
proof -
  have "Iter_inv it0" using assms(1,2,3) by (rule Iter_init_inv)
  from Iter_ops_inv [OF this assms(4)] have i: "Iter_inv it" and c: "same_consts it0 it"
    by (simp_all add: op_post_def)
  from i have "\<not> Valid it \<longrightarrow> restart_index it = num_restarts it"
    by (simp add: Iter_inv_def split: if_splits)
  moreover have "\<forall>op. Iter_op op it = None \<longrightarrow>
     (op = OpNext \<or> op = OpPrev) \<and> \<not> Valid it \<or> \<not> keys_in_buffer it0"
  proof (intro allI impI)
    fix op assume "Iter_op op it = None"
    with Iter_op_total [OF i, of op] keys_in_buffer_same [OF c]
    show "(op = OpNext \<or> op = OpPrev) \<and> \<not> Valid it \<or> \<not> keys_in_buffer it0"
      by simp
  qed
  ultimately show ?thesis by (simp add: Valid_def)
qed

text \<open>
  The invariant on the example block, after a sequence of calls that ends past the
  last entry. No key of the example block runs past the end of the buffer, and of
  the five calls only \<open>Next\<close> and \<open>Prev\<close> have no result in the final state.
\<close>

theorem Iter_invariant_witness:
  "Iter_init BytewiseCompare example_data 15 2 = Some example_iter \<and>
   (15::nat) + 4 * (2 + 1) \<le> length example_data \<and> length example_data < 2 ^ 32 \<and>
   Iter_ops [OpSeekToLast, OpPrev, OpPrev, OpNext, OpSeek [0x63]] example_iter
     = Some (example_iter\<lparr>key := [0x62], value_data := InData 14, value_size := 1\<rparr>) \<and>
   \<not> Valid (example_iter\<lparr>key := [0x62], value_data := InData 14, value_size := 1\<rparr>) \<and>
   restart_index (example_iter\<lparr>key := [0x62], value_data := InData 14, value_size := 1\<rparr>)
     = num_restarts (example_iter\<lparr>key := [0x62], value_data := InData 14, value_size := 1\<rparr>) \<and>
   keys_in_buffer example_iter \<and>
   Iter_op OpNext (example_iter\<lparr>key := [0x62], value_data := InData 14, value_size := 1\<rparr>)
     = None \<and>
   Iter_op OpSeekToFirst
       (example_iter\<lparr>key := [0x62], value_data := InData 14, value_size := 1\<rparr>)
     = Some (example_at 0 0 [0x61] 4)"
proof -
  have a: "Iter_init BytewiseCompare example_data 15 2 = Some example_iter"
    by (simp add: Iter_init_def example_iter_def)
  have b: "(15::nat) + 4 * (2 + 1) \<le> length example_data" "length example_data < 2 ^ 32"
    by (simp_all add: example_data_def)
  have c: "Iter_ops [OpSeekToLast, OpPrev, OpPrev, OpNext, OpSeek [0x63]] example_iter
     = Some (example_iter\<lparr>key := [0x62], value_data := InData 14, value_size := 1\<rparr>)"
    by (simp add: example_eval)
  have d: "\<not> Valid (example_iter\<lparr>key := [0x62], value_data := InData 14, value_size := 1\<rparr>)"
    by (simp add: Valid_def example_iter_def)
  have k: "keys_in_buffer example_iter"
    by (simp add: keys_in_buffer_def example_iter_def example_data_def DecodeEntry_def
          GetVarint32Ptr_def GetVarint32PtrFallback.simps upt_conv_Cons)
  have e: "Iter_op OpNext
             (example_iter\<lparr>key := [0x62], value_data := InData 14, value_size := 1\<rparr>) = None"
    "Iter_op OpSeekToFirst
       (example_iter\<lparr>key := [0x62], value_data := InData 14, value_size := 1\<rparr>)
     = Some (example_at 0 0 [0x61] 4)"
    by (simp_all add: example_eval)
  from Iter_invariant [OF a b c] a b c d k e show ?thesis by blast
qed

subsection \<open>Well-formed blocks\<close>

lemma entry_at_facts:
  assumes "entry_at d limit k p = Some e"
  shows "e_offset e = p" "p + 3 \<le> e_value_data e" "next_offset e \<le> limit"
    "p < next_offset e" "p + 3 \<le> limit"
    "\<exists>non_shared q. DecodeEntry d p limit = Some (e_shared e, non_shared, e_value_size e, q) \<and>
       e_shared e \<le> length k \<and> e_key e = take (e_shared e) k @ take non_shared (drop q d) \<and>
       e_value_data e = q + non_shared \<and> q + non_shared + e_value_size e \<le> limit"
proof -
  from assms obtain shared non_shared value_length q where
    d: "DecodeEntry d p limit = Some (shared, non_shared, value_length, q)"
    and c: "shared \<le> length k" "q + non_shared + value_length \<le> limit"
    and e: "e = \<lparr>e_offset = p, e_shared = shared,
                     e_key = take shared k @ take non_shared (drop q d),
                     e_value_data = q + non_shared, e_value_size = value_length\<rparr>"
    by (auto simp: entry_at_def split: option.splits if_splits)
  from DecodeEntry_bounds [OF d] have b: "p + 3 \<le> q" "q \<le> limit" by auto
  show "e_offset e = p" by (simp add: e)
  show "p + 3 \<le> e_value_data e" using b by (simp add: e)
  show "next_offset e \<le> limit" using c by (simp add: e next_offset_def)
  show "p < next_offset e" using b by (simp add: e next_offset_def)
  show "p + 3 \<le> limit" using b by simp
  show "\<exists>non_shared q. DecodeEntry d p limit = Some (e_shared e, non_shared, e_value_size e, q) \<and>
       e_shared e \<le> length k \<and> e_key e = take (e_shared e) k @ take non_shared (drop q d) \<and>
       e_value_data e = q + non_shared \<and> q + non_shared + e_value_size e \<le> limit"
    using d c by (auto simp: e)
qed

lemma entries_from_nth:
  "entries_from d limit k p es \<Longrightarrow> i < length es \<Longrightarrow>
     entry_at d limit (if i = 0 then k else e_key (es ! (i - 1))) (e_offset (es ! i))
       = Some (es ! i) \<and>
     next_offset (es ! i) = (if i + 1 < length es then e_offset (es ! (i + 1)) else limit) \<and>
     e_offset (es ! 0) = p"
proof (induction es arbitrary: k p i)
  case Nil
  then show ?case by simp
next
  case (Cons e es)
  from Cons.prems have e: "entry_at d limit k p = Some e"
    and r: "entries_from d limit (e_key e) (next_offset e) es" by auto
  note f = entry_at_facts [OF e]
  show ?case
  proof (cases i)
    case 0
    show ?thesis
    proof (cases es)
      case Nil
      with r have "next_offset e = limit" by simp
      then show ?thesis using 0 e f(1) Nil by simp
    next
      case (Cons e' es')
      from Cons.IH [OF r, of 0] Cons have "e_offset (es ! 0) = next_offset e" by simp
      then show ?thesis using 0 e f(1) Cons by simp
    qed
  next
    case (Suc i')
    with Cons.prems have i': "i' < length es" by simp
    from Cons.IH [OF r i'] have
      a: "entry_at d limit (if i' = 0 then e_key e else e_key (es ! (i' - 1)))
            (e_offset (es ! i')) = Some (es ! i')"
      and b: "next_offset (es ! i') = (if i' + 1 < length es then e_offset (es ! (i' + 1)) else limit)"
      by auto
    have "(if i' = 0 then e_key e else e_key (es ! (i' - 1))) = e_key ((e # es) ! (i - 1))"
      using Suc by (cases i') simp_all
    then show ?thesis using a b Suc f(1) by simp
  qed
qed

lemma entries_from_Nil: "entries_from d limit k p [] \<Longrightarrow> p = limit"
  by simp

lemma wf_consts:
  "well_formed it es \<Longrightarrow> same_consts it it' \<Longrightarrow> well_formed it' es"
  by (simp add: well_formed_def same_consts_def)

lemma wf_basic:
  assumes "well_formed it es"
  shows "0 < num_restarts it" "restarts it < 2 ^ 32"
    "entries_from (data it) (restarts it) [] (restart_at it 0) es"
    "restarts it \<le> length (data it)" "num_restarts it < 2 ^ 30"
  using assms by (auto simp: well_formed_def)

lemma wf_restart_mono:
  assumes "well_formed it es" "i < j" "j < num_restarts it"
  shows "restart_at it i < restart_at it j"
proof -
  from assms(1) have "sorted_wrt (<) (map (restart_at it) [0..<num_restarts it])"
    by (simp add: well_formed_def)
  from sorted_wrt_nth_less [OF this, of i j] assms(2,3) show ?thesis by simp
qed

lemma wf_restart_mono_le:
  assumes "well_formed it es" "i \<le> j" "j < num_restarts it"
  shows "restart_at it i \<le> restart_at it j"
  using wf_restart_mono [OF assms(1), of i j] assms(2,3) by (cases "i = j") auto

lemma wf_entry:
  assumes "well_formed it es" "k < length es"
  shows "entry_at (data it) (restarts it) (prev_key es k) (e_offset (es ! k)) = Some (es ! k)"
    "next_offset (es ! k) = offset_of it es (k + 1)"
    "e_offset (es ! k) < offset_of it es (k + 1)"
    "e_offset (es ! k) < restarts it"
    "offset_of it es (k + 1) \<le> restarts it"
    "e_offset (es ! 0) = restart_at it 0"
proof -
  note n = entries_from_nth [OF wf_basic(3) [OF assms(1)] assms(2)]
  show a: "entry_at (data it) (restarts it) (prev_key es k) (e_offset (es ! k)) = Some (es ! k)"
    using n by (simp add: prev_key_def)
  show b: "next_offset (es ! k) = offset_of it es (k + 1)"
    using n by (simp add: offset_of_def)
  note f = entry_at_facts [OF a]
  show "e_offset (es ! k) < offset_of it es (k + 1)" using f(4) b by simp
  show "offset_of it es (k + 1) \<le> restarts it" using f(3) b by simp
  show "e_offset (es ! k) < restarts it" using f(5) by simp
  show "e_offset (es ! 0) = restart_at it 0" using n by simp
qed

lemma wf_empty:
  assumes "well_formed it []"
  shows "restart_at it 0 = restarts it"
  using wf_basic(3) [OF assms] by simp

lemma offset_of_mono:
  assumes "well_formed it es" "i < j" "j \<le> length es"
  shows "offset_of it es i < offset_of it es j"
  using assms(2,3)
proof (induction j)
  case 0
  then show ?case by simp
next
  case (Suc j)
  then have j: "j < length es" by simp
  from wf_entry(3) [OF assms(1) j] j have s: "offset_of it es j < offset_of it es (Suc j)"
    by (simp add: offset_of_def)
  show ?case
  proof (cases "i = j")
    case True
    then show ?thesis using s by simp
  next
    case False
    with Suc have "offset_of it es i < offset_of it es j" by simp
    then show ?thesis using s by simp
  qed
qed

lemma offset_of_mono_le:
  assumes "well_formed it es" "i \<le> j" "j \<le> length es"
  shows "offset_of it es i \<le> offset_of it es j"
  using offset_of_mono [OF assms(1), of i j] assms(2,3) by (cases "i = j") auto

lemma offset_of_inj:
  assumes "well_formed it es" "i \<le> length es" "j \<le> length es"
    "offset_of it es i = offset_of it es j"
  shows "i = j"
proof (rule ccontr)
  assume "i \<noteq> j"
  then have "i < j \<or> j < i" by arith
  then show False
    using offset_of_mono [OF assms(1), of i j] offset_of_mono [OF assms(1), of j i] assms(2-4)
    by auto
qed

lemma offset_of_less_iff:
  assumes "well_formed it es" "i \<le> length es" "j \<le> length es"
  shows "offset_of it es i < offset_of it es j \<longleftrightarrow> i < j"
  using offset_of_mono [OF assms(1), of i j] offset_of_mono_le [OF assms(1), of j i] assms(2,3)
  by (metis leD leI)

lemma wf_restart_entry:
  assumes "well_formed it es" "j < num_restarts it" "0 < j \<or> es \<noteq> []"
  shows "\<exists>k < length es. e_offset (es ! k) = restart_at it j \<and> e_shared (es ! k) = 0"
proof (cases "j = 0")
  case True
  with assms(3) have l: "0 < length es" by simp
  from wf_entry(1) [OF assms(1) l] have "e_shared (es ! 0) \<le> length (prev_key es 0)"
    using entry_at_facts(6) by blast
  then have "e_shared (es ! 0) = 0" by (simp add: prev_key_def)
  then show ?thesis using wf_entry(6) [OF assms(1) l] l True by auto
next
  case False
  from assms(1) have
    "list_all (\<lambda>j. list_ex (\<lambda>e. e_offset e = restart_at it j \<and> e_shared e = 0) es)
       [1..<num_restarts it]"
    by (simp add: well_formed_def)
  with False assms(2) have
    "list_ex (\<lambda>e. e_offset e = restart_at it j \<and> e_shared e = 0) es"
    by (auto simp: list_all_iff)
  then show ?thesis by (auto simp: list_ex_iff in_set_conv_nth)
qed

subsection \<open>One parse on a well-formed block\<close>

lemma SeekToRestartPoint_eq:
  "j < num_restarts it \<Longrightarrow> SeekToRestartPoint it j = Some (restart_state it j)"
  by (simp add: SeekToRestartPoint_def GetRestartPoint_def restart_state_def)

lemma restart_state_index [simp]:
  "restart_state (it\<lparr>restart_index := i\<rparr>) j = restart_state it j"
  by (simp add: restart_state_def)

lemma restart_state_fields [simp]:
  "comparator (restart_state it j) = comparator it"
  "data (restart_state it j) = data it"
  "restarts (restart_state it j) = restarts it"
  "num_restarts (restart_state it j) = num_restarts it"
  "status (restart_state it j) = status it"
  "current (restart_state it j) = current it"
  "restart_index (restart_state it j) = j"
  "key (restart_state it j) = []"
  "value_data (restart_state it j) = InData (restart_at it j)"
  "value_size (restart_state it j) = 0"
  by (simp_all add: restart_state_def)

lemma at_entry_fields [simp]:
  "comparator (at_entry it e r) = comparator it"
  "data (at_entry it e r) = data it"
  "restarts (at_entry it e r) = restarts it"
  "num_restarts (at_entry it e r) = num_restarts it"
  "status (at_entry it e r) = status it"
  "current (at_entry it e r) = e_offset e"
  "restart_index (at_entry it e r) = r"
  "key (at_entry it e r) = e_key e"
  "value_data (at_entry it e r) = InData (e_value_data e)"
  "value_size (at_entry it e r) = e_value_size e"
  by (simp_all add: at_entry_def)

lemma at_entry_base:
  "same_consts it s \<Longrightarrow> status s = status it \<Longrightarrow> at_entry s e r = at_entry it e r"
  by (cases it, cases s) (simp add: at_entry_def same_consts_def)

lemma at_entry_at_entry [simp]: "at_entry (at_entry it e r) e' r' = at_entry it e' r'"
  by (simp add: at_entry_def)

lemma at_entry_restart_state [simp]: "at_entry (restart_state it j) e r = at_entry it e r"
  by (simp add: at_entry_def restart_state_def)

lemma same_consts_at_entry [simp]: "same_consts it (at_entry it e r)"
  by (simp add: same_consts_def)

lemma same_consts_restart_state [simp]: "same_consts it (restart_state it j)"
  by (simp add: same_consts_def)

lemma Iter_eqI:
  assumes "comparator a = comparator b" "data a = data b" "restarts a = restarts b"
    "num_restarts a = num_restarts b" "current a = current b"
    "restart_index a = restart_index b" "key a = key b" "value_data a = value_data b"
    "value_size a = value_size b" "status a = status b"
  shows "a = (b :: Iter)"
  using assms by (cases a, cases b) simp

lemma ParseNextKey_end:
  assumes "NextEntryOffset s = Some c" "restarts s \<le> c"
  shows "ParseNextKey s
           = Some (False, s\<lparr>current := restarts s, restart_index := num_restarts s\<rparr>)"
  using assms by (simp add: ParseNextKey_def Let_def)

lemma ParseNextKey_decode:
  assumes "NextEntryOffset s = Some c" "c < restarts s"
    "DecodeEntry (data s) c (restarts s) = Some (sh, ns, vl, q)" "sh \<le> length (key s)"
    "q + ns \<le> length (data s)"
  shows "\<exists>s'. ParseNextKey s = Some (True, s') \<and> current s' = c \<and>
           key s' = take sh (key s) @ take ns (drop q (data s)) \<and>
           value_data s' = InData (q + ns) \<and> value_size s' = vl"
proof -
  have "ParseNextKey s \<noteq> None"
    using assms(1,3,5)
    by (auto simp: ParseNextKey_None NextEntryOffset_def split: ptr.splits)
  then obtain ok s' where p: "ParseNextKey s = Some (ok, s')" by auto
  have ok using p assms
    by (auto simp: ParseNextKey_def Let_def split: option.splits if_splits)
  with p have t: "ParseNextKey s = Some (True, s')" by simp
  from ParseNextKey_True [OF t] assms show ?thesis using t by auto
qed

lemma NextEntryOffset_at_entry:
  assumes "next_offset e < 2 ^ 32"
  shows "NextEntryOffset (at_entry it e r) = Some (next_offset e)"
  using assms by (simp add: NextEntryOffset_def next_offset_def)

lemma NextEntryOffset_restart_state:
  assumes "restart_at it j < 2 ^ 32"
  shows "NextEntryOffset (restart_state it j) = Some (restart_at it j)"
  using assms by (simp add: NextEntryOffset_def)

lemma ParseNextKey_at:
  assumes wf: "well_formed it es"
    and b: "same_consts it s" "status s = status it"
    and k: "k < length es"
    and neo: "NextEntryOffset s = Some (e_offset (es ! k))"
    and key: "key s = prev_key es k \<or> (key s = [] \<and> e_shared (es ! k) = 0)"
  shows "\<exists>r. ParseNextKey s = Some (True, at_entry it (es ! k) r) \<and>
           restart_index s \<le> r \<and>
           (restart_index s < num_restarts it \<longrightarrow> r < num_restarts it) \<and>
           (\<forall>j. restart_index s < j \<and> j \<le> r \<longrightarrow> restart_at it j < e_offset (es ! k)) \<and>
           (r + 1 < num_restarts it \<longrightarrow> e_offset (es ! k) \<le> restart_at it (r + 1))"
proof -
  have c: "data s = data it" "restarts s = restarts it" "num_restarts s = num_restarts it"
    "comparator s = comparator it"
    using b(1) by (simp_all add: same_consts_def)
  note e = wf_entry [OF wf k]
  from entry_at_facts(6) [OF e(1)] obtain ns q where
    d: "DecodeEntry (data it) (e_offset (es ! k)) (restarts it)
          = Some (e_shared (es ! k), ns, e_value_size (es ! k), q)"
    and sh: "e_shared (es ! k) \<le> length (prev_key es k)"
    and ek: "e_key (es ! k) = take (e_shared (es ! k)) (prev_key es k) @ take ns (drop q (data it))"
    and ev: "e_value_data (es ! k) = q + ns"
    and qb: "q + ns + e_value_size (es ! k) \<le> restarts it"
    by blast
  have sh': "e_shared (es ! k) \<le> length (key s)"
    using key sh by auto
  have lt: "e_offset (es ! k) < restarts s" using e(4) c by simp
  have ql: "q + ns \<le> length (data s)" using qb wf_basic(4) [OF wf] c by simp
  from ParseNextKey_decode [OF neo lt d [folded c] sh' ql] obtain s' where
    p: "ParseNextKey s = Some (True, s')" and f: "current s' = e_offset (es ! k)"
      "key s' = take (e_shared (es ! k)) (key s) @ take ns (drop q (data s))"
      "value_data s' = InData (q + ns)" "value_size s' = e_value_size (es ! k)"
    by blast
  note t = ParseNextKey_True [OF p]
  have kk: "key s' = e_key (es ! k)"
    using key f(2) ek c by auto
  have "s' = at_entry it (es ! k) (restart_index s')"
    using t f kk ev b c
    by (intro Iter_eqI) (simp_all add: same_consts_def)
  then have "ParseNextKey s = Some (True, at_entry it (es ! k) (restart_index s'))"
    using p by simp
  moreover have "restart_index s \<le> restart_index s'" using t by simp
  moreover have "restart_index s < num_restarts it \<longrightarrow> restart_index s' < num_restarts it"
    using t c by simp
  moreover have "\<forall>j. restart_index s < j \<and> j \<le> restart_index s' \<longrightarrow>
      restart_at it j < e_offset (es ! k)"
    using t c f(1) by simp
  moreover have "restart_index s' + 1 < num_restarts it \<longrightarrow>
      e_offset (es ! k) \<le> restart_at it (restart_index s' + 1)"
    using t c f(1) by simp
  ultimately show ?thesis by blast
qed

lemma wf_next_offset_bound:
  assumes "well_formed it es" "k < length es"
  shows "next_offset (es ! k) < 2 ^ 32"
  using wf_entry(2,5) [OF assms] wf_basic(2) [OF assms(1)] by simp

lemma wf_restart_bound:
  assumes "well_formed it es" "j < num_restarts it"
  shows "restart_at it j \<le> restarts it" "restart_at it j < 2 ^ 32"
proof -
  show "restart_at it j \<le> restarts it"
  proof (cases "0 < j \<or> es \<noteq> []")
    case True
    from wf_restart_entry [OF assms True] obtain k where
      "k < length es" "e_offset (es ! k) = restart_at it j" by blast
    then show ?thesis using wf_entry(4) [OF assms(1), of k] by simp
  next
    case False
    then show ?thesis using wf_empty assms(1) by auto
  qed
  then show "restart_at it j < 2 ^ 32" using wf_basic(2) [OF assms(1)] by simp
qed

text \<open>One step from an entry: to the next entry, or past the end.\<close>

lemma step_from_entry:
  assumes wf: "well_formed it es" and k: "k < length es"
    and r: "region_ok it (e_offset (es ! k)) r"
  shows "if k + 1 < length es
         then \<exists>r'. ParseNextKey (at_entry it (es ! k) r)
                      = Some (True, at_entry it (es ! (k + 1)) r') \<and> r \<le> r' \<and>
                    region_ok it (e_offset (es ! (k + 1))) r' \<and>
                    (\<forall>j. r < j \<and> j \<le> r' \<longrightarrow> restart_at it j < e_offset (es ! (k + 1)))
         else ParseNextKey (at_entry it (es ! k) r) = Some (False, past_end it es)"
proof (cases "k + 1 < length es")
  case True
  let ?s = "at_entry it (es ! k) r"
  have neo: "NextEntryOffset ?s = Some (e_offset (es ! (k + 1)))"
    using NextEntryOffset_at_entry [OF wf_next_offset_bound [OF wf k]] wf_entry(2) [OF wf k] True
    by (simp add: offset_of_def)
  have key: "key ?s = prev_key es (k + 1)" by (simp add: prev_key_def)
  have bs: "same_consts it ?s" "status ?s = status it" by simp_all
  from ParseNextKey_at [OF wf bs True neo] key obtain r' where
    p: "ParseNextKey ?s = Some (True, at_entry it (es ! (k + 1)) r')"
       "r \<le> r'" "r < num_restarts it \<longrightarrow> r' < num_restarts it"
       "\<forall>j. r < j \<and> j \<le> r' \<longrightarrow> restart_at it j < e_offset (es ! (k + 1))"
       "r' + 1 < num_restarts it \<longrightarrow> e_offset (es ! (k + 1)) \<le> restart_at it (r' + 1)"
    by auto
  have lt: "e_offset (es ! k) < e_offset (es ! (k + 1))"
    using wf_entry(3) [OF wf k] True by (simp add: offset_of_def)
  have "restart_at it r' \<le> e_offset (es ! (k + 1))"
  proof (cases "r' = r")
    case True
    then show ?thesis using r lt by (simp add: region_ok_def)
  next
    case False
    with p(2) have "r < r' \<and> r' \<le> r'" by simp
    with p(4) show ?thesis by (meson less_imp_le)
  qed
  then have "region_ok it (e_offset (es ! (k + 1))) r'"
    using p(3,5) r by (simp add: region_ok_def)
  then show ?thesis using True p by auto
next
  case False
  let ?s = "at_entry it (es ! k) r"
  from False k have l: "k = length es - 1" "es \<noteq> []" by auto
  have neo: "NextEntryOffset ?s = Some (restarts it)"
    using NextEntryOffset_at_entry [OF wf_next_offset_bound [OF wf k]] wf_entry(2) [OF wf k] False
    by (simp add: offset_of_def)
  have "ParseNextKey ?s
          = Some (False, ?s\<lparr>current := restarts ?s, restart_index := num_restarts ?s\<rparr>)"
    using ParseNextKey_end [OF neo] by simp
  moreover have "?s\<lparr>current := restarts ?s, restart_index := num_restarts ?s\<rparr> = past_end it es"
    using l by (simp add: past_end_def at_entry_def last_conv_nth)
  ultimately show ?thesis using False by simp
qed

text \<open>One step from a restart point: to the entry at its offset.\<close>

lemma step_from_restart:
  assumes wf: "well_formed it es" and b: "same_consts it s" "status s = status it"
    and j: "j < num_restarts it"
  shows "if es = []
         then ParseNextKey (restart_state s j) = Some (False, past_end s es)
         else \<exists>k < length es. e_offset (es ! k) = restart_at it j \<and>
                ParseNextKey (restart_state s j) = Some (True, at_entry it (es ! k) j) \<and>
                region_ok it (e_offset (es ! k)) j"
proof (cases "es = []")
  case True
  have c: "data s = data it" "restarts s = restarts it" "num_restarts s = num_restarts it"
    using b(1) by (simp_all add: same_consts_def)
  have j0: "j = 0"
  proof (rule ccontr)
    assume "j \<noteq> 0"
    then have "0 < j \<or> es \<noteq> []" by simp
    from wf_restart_entry [OF wf j this] True show False by simp
  qed
  have r0: "restart_at it 0 = restarts it" using wf_empty wf True by simp
  have neo: "NextEntryOffset (restart_state s j) = Some (restarts it)"
    using NextEntryOffset_restart_state [of s j] c r0 j0 wf_basic(2) [OF wf] by simp
  have "ParseNextKey (restart_state s j)
          = Some (False, (restart_state s j)\<lparr>current := restarts (restart_state s j),
                            restart_index := num_restarts (restart_state s j)\<rparr>)"
    using ParseNextKey_end [OF neo] c by simp
  moreover have "(restart_state s j)\<lparr>current := restarts (restart_state s j),
                            restart_index := num_restarts (restart_state s j)\<rparr> = past_end s es"
    using True j0 by (simp add: past_end_def restart_state_def)
  ultimately show ?thesis using True by simp
next
  case False
  have c: "data s = data it" "restarts s = restarts it" "num_restarts s = num_restarts it"
    using b(1) by (simp_all add: same_consts_def)
  from wf_restart_entry [OF wf j] False obtain k where
    k: "k < length es" "e_offset (es ! k) = restart_at it j" "e_shared (es ! k) = 0" by blast
  let ?s = "restart_state s j"
  have neo: "NextEntryOffset ?s = Some (e_offset (es ! k))"
    using NextEntryOffset_restart_state [of s j] c k(2) wf_restart_bound(2) [OF wf j] by simp
  have bs: "same_consts it ?s" "status ?s = status it"
    using b by (simp_all add: same_consts_def)
  from ParseNextKey_at [OF wf bs k(1) neo] k(3) obtain r where
    p: "ParseNextKey ?s = Some (True, at_entry it (es ! k) r)" "j \<le> r"
       "j < num_restarts it \<longrightarrow> r < num_restarts it"
       "\<forall>i. j < i \<and> i \<le> r \<longrightarrow> restart_at it i < e_offset (es ! k)"
       "r + 1 < num_restarts it \<longrightarrow> e_offset (es ! k) \<le> restart_at it (r + 1)"
    by auto
  have "r = j"
  proof (rule ccontr)
    assume "r \<noteq> j"
    with p(2) have jr: "j < r" by simp
    with p(4) have "restart_at it r < restart_at it j" using k(2) by simp
    moreover have "restart_at it j < restart_at it r"
      using wf_restart_mono [OF wf jr] p(3) j by simp
    ultimately show False by simp
  qed
  then have "region_ok it (e_offset (es ! k)) j"
    using p(5) j k(2) by (simp add: region_ok_def)
  then show ?thesis using False k p(1) \<open>r = j\<close> by auto
qed

subsection \<open>Forward iteration\<close>

lemma wf_offset_inj:
  assumes "well_formed it es" "i < length es" "j < length es"
    "e_offset (es ! i) = e_offset (es ! j)"
  shows "i = j"
  using offset_of_inj [OF assms(1), of i j] assms(2-4) by (simp add: offset_of_def)

lemma wf_offset_less_iff:
  assumes "well_formed it es" "i < length es" "j < length es"
  shows "e_offset (es ! i) < e_offset (es ! j) \<longleftrightarrow> i < j"
  using offset_of_less_iff [OF assms(1), of i j] assms(2,3) by (simp add: offset_of_def)

lemma Valid_at_entry:
  assumes "well_formed it es" "k < length es"
  shows "Valid (at_entry it (es ! k) r)"
  using wf_entry(4) [OF assms] by (simp add: Valid_def)

lemma not_Valid_past_end [simp]: "\<not> Valid (past_end it es)"
  by (simp add: past_end_def Valid_def)

lemma not_Valid_before_first [simp]: "\<not> Valid (before_first it es)"
  by (simp add: before_first_def Valid_def)

lemma SeekToFirst_wf:
  assumes wf: "well_formed it es"
  shows "SeekToFirst it = Some (if es = [] then past_end it es else at_entry it (es ! 0) 0)"
    "es \<noteq> [] \<Longrightarrow> region_ok it (e_offset (es ! 0)) 0"
proof -
  have s: "SeekToRestartPoint it 0 = Some (restart_state it 0)"
    using SeekToRestartPoint_eq wf_basic(1) [OF wf] by simp
  note st = step_from_restart [OF wf same_consts_refl refl wf_basic(1) [OF wf]]
  show "SeekToFirst it = Some (if es = [] then past_end it es else at_entry it (es ! 0) 0)"
  proof (cases "es = []")
    case True
    then show ?thesis using st s by (simp add: SeekToFirst_def)
  next
    case False
    with st obtain k where k: "k < length es" "e_offset (es ! k) = restart_at it 0"
      "ParseNextKey (restart_state it 0) = Some (True, at_entry it (es ! k) 0)" by auto
    have "k = 0"
      using wf_offset_inj [OF wf k(1), of 0] wf_entry(6) [OF wf k(1)] k(2) False by simp
    then show ?thesis using k(3) s False by (simp add: SeekToFirst_def)
  qed
  show "region_ok it (e_offset (es ! 0)) 0" if "es \<noteq> []"
  proof -
    from st that obtain k where k: "k < length es" "e_offset (es ! k) = restart_at it 0"
      "region_ok it (e_offset (es ! k)) 0" by auto
    have "k = 0"
      using wf_offset_inj [OF wf k(1), of 0] wf_entry(6) [OF wf k(1)] k(2) that by simp
    then show ?thesis using k(3) by simp
  qed
qed

lemma Next_wf:
  assumes wf: "well_formed it es" and k: "k < length es"
    and r: "region_ok it (e_offset (es ! k)) r"
  shows "if k + 1 < length es
         then \<exists>r'. Next (at_entry it (es ! k) r) = Some (at_entry it (es ! (k + 1)) r') \<and>
                    region_ok it (e_offset (es ! (k + 1))) r'
         else Next (at_entry it (es ! k) r) = Some (past_end it es)"
  using step_from_entry [OF wf k r] Valid_at_entry [OF wf k, of r]
  by (auto simp: Next_def split: if_splits)

lemma Next_keys_wf:
  assumes wf: "well_formed it es"
  shows "k < length es \<Longrightarrow> region_ok it (e_offset (es ! k)) r \<Longrightarrow>
         Next_keys (at_entry it (es ! k) r) = Some (map e_key (drop k es))"
proof (induction "length es - k" arbitrary: k r)
  case 0
  then show ?case by simp
next
  case (Suc m)
  note v = Valid_at_entry [OF wf Suc.prems(1), of r]
  note n = Next_wf [OF wf Suc.prems(1,2)]
  have d: "drop k es = es ! k # drop (k + 1) es"
    using Suc.prems(1) by (simp add: Cons_nth_drop_Suc)
  show ?case
  proof (cases "k + 1 < length es")
    case True
    with n obtain r' where
      r': "Next (at_entry it (es ! k) r) = Some (at_entry it (es ! (k + 1)) r')"
          "region_ok it (e_offset (es ! (k + 1))) r'" by auto
    have "m = length es - (k + 1)" using Suc.hyps(2) by simp
    from Suc.hyps(1) [OF this True r'(2)]
    have "Next_keys (at_entry it (es ! (k + 1)) r') = Some (map e_key (drop (k + 1) es))" .
    then show ?thesis using v r'(1) d
      by (subst Next_keys.simps) simp
  next
    case False
    with n have e: "Next (at_entry it (es ! k) r) = Some (past_end it es)" by simp
    have "Next_keys (past_end it es) = Some []"
      by (subst Next_keys.simps) simp
    moreover have "drop (k + 1) es = []" using False by simp
    ultimately show ?thesis using v e d
      by (subst Next_keys.simps) simp
  qed
qed

lemma keys_forward_wf:
  assumes wf: "well_formed it es"
  shows "keys_forward it = Some (map e_key es)"
proof (cases "es = []")
  case True
  have "Next_keys (past_end it es) = Some []"
    by (subst Next_keys.simps) simp
  then show ?thesis using SeekToFirst_wf(1) [OF wf] True by (simp add: keys_forward_def)
next
  case False
  then have l: "0 < length es" by simp
  from Next_keys_wf [OF wf l SeekToFirst_wf(2) [OF wf False]]
  show ?thesis using SeekToFirst_wf(1) [OF wf] False by (simp add: keys_forward_def)
qed

text \<open>A step that stays in the restart region.\<close>

lemma step_same_region:
  assumes wf: "well_formed it es" and k: "k + 1 < length es"
    and r: "region_ok it (e_offset (es ! k)) r"
    and u: "r + 1 < num_restarts it \<longrightarrow> e_offset (es ! (k + 1)) \<le> restart_at it (r + 1)"
  shows "ParseNextKey (at_entry it (es ! k) r) = Some (True, at_entry it (es ! (k + 1)) r)"
    "region_ok it (e_offset (es ! (k + 1))) r"
proof -
  from k have k': "k < length es" by simp
  from step_from_entry [OF wf k' r] k obtain r' where
    p: "ParseNextKey (at_entry it (es ! k) r) = Some (True, at_entry it (es ! (k + 1)) r')"
       "r \<le> r'" "region_ok it (e_offset (es ! (k + 1))) r'"
       "\<forall>j. r < j \<and> j \<le> r' \<longrightarrow> restart_at it j < e_offset (es ! (k + 1))"
    by auto
  have "r' = r"
  proof (rule ccontr)
    assume "r' \<noteq> r"
    with p(2) have lt: "r < r + 1 \<and> r + 1 \<le> r'" by simp
    with p(4) have "restart_at it (r + 1) < e_offset (es ! (k + 1))" by blast
    moreover have "r + 1 < num_restarts it" using lt p(3) by (simp add: region_ok_def)
    ultimately show False using u by simp
  qed
  then show "ParseNextKey (at_entry it (es ! k) r) = Some (True, at_entry it (es ! (k + 1)) r)"
    "region_ok it (e_offset (es ! (k + 1))) r"
    using p by simp_all
qed

lemma NextEntryOffset_entry:
  assumes "well_formed it es" "k < length es"
  shows "NextEntryOffset (at_entry it (es ! k) r) = Some (offset_of it es (k + 1))"
  using NextEntryOffset_at_entry [OF wf_next_offset_bound [OF assms]] wf_entry(2) [OF assms]
  by simp

lemma SeekToLast_scan_wf:
  assumes wf: "well_formed it es"
  shows "k < length es \<Longrightarrow> region_ok it (e_offset (es ! k)) (num_restarts it - 1) \<Longrightarrow>
         ParseNextKey s = Some (True, at_entry it (es ! k) (num_restarts it - 1)) \<Longrightarrow>
         SeekToLast_scan s = Some (at_entry it (last es) (num_restarts it - 1))"
proof (induction "length es - k" arbitrary: k s)
  case 0
  then show ?case by simp
next
  case (Suc m)
  let ?n = "num_restarts it - 1"
  note neo = NextEntryOffset_entry [OF wf Suc.prems(1), of ?n]
  show ?case
  proof (cases "k + 1 < length es")
    case True
    have u: "?n + 1 < num_restarts it \<longrightarrow> e_offset (es ! (k + 1)) \<le> restart_at it (?n + 1)"
      using wf_basic(1) [OF wf] by simp
    note st = step_same_region [OF wf True Suc.prems(2) u]
    have "m = length es - (k + 1)" using Suc.hyps(2) by simp
    from Suc.hyps(1) [OF this True st(2) st(1)]
    have "SeekToLast_scan (at_entry it (es ! k) ?n) = Some (at_entry it (last es) ?n)" .
    moreover have "offset_of it es (k + 1) < restarts it"
      using wf_entry(4) [OF wf True] True by (simp add: offset_of_def)
    ultimately show ?thesis using Suc.prems(3) neo
      by (subst SeekToLast_scan.simps) simp
  next
    case False
    then have "offset_of it es (k + 1) = restarts it" by (simp add: offset_of_def)
    moreover have "last es = es ! k"
    proof -
      have "k = length es - 1" "es \<noteq> []" using False Suc.prems(1) by auto
      then show ?thesis by (simp add: last_conv_nth)
    qed
    ultimately show ?thesis using Suc.prems(3) neo
      by (subst SeekToLast_scan.simps) simp
  qed
qed

lemma SeekToLast_wf:
  assumes wf: "well_formed it es"
  shows "SeekToLast it = Some (if es = [] then past_end it es
                               else at_entry it (last es) (num_restarts it - 1))"
    "es \<noteq> [] \<Longrightarrow> region_ok it (e_offset (last es)) (num_restarts it - 1)"
proof -
  let ?n = "num_restarts it - 1"
  have n: "?n < num_restarts it" using wf_basic(1) [OF wf] by simp
  have s: "SeekToRestartPoint it ?n = Some (restart_state it ?n)"
    using SeekToRestartPoint_eq [OF n] .
  note st = step_from_restart [OF wf same_consts_refl refl n]
  show "SeekToLast it = Some (if es = [] then past_end it es else at_entry it (last es) ?n)"
  proof (cases "es = []")
    case True
    with st have "ParseNextKey (restart_state it ?n) = Some (False, past_end it es)" by simp
    then have "SeekToLast_scan (restart_state it ?n) = Some (past_end it es)"
      by (subst SeekToLast_scan.simps) simp
    then show ?thesis using s True by (simp add: SeekToLast_def)
  next
    case False
    with st obtain k where k: "k < length es"
      "ParseNextKey (restart_state it ?n) = Some (True, at_entry it (es ! k) ?n)"
      "region_ok it (e_offset (es ! k)) ?n" by auto
    from SeekToLast_scan_wf [OF wf k(1,3,2)] show ?thesis
      using s False by (simp add: SeekToLast_def)
  qed
  show "region_ok it (e_offset (last es)) ?n" if "es \<noteq> []"
  proof -
    from st that obtain k where k: "k < length es" "e_offset (es ! k) = restart_at it ?n" by auto
    have "k \<le> length es - 1" using k(1) by simp
    from offset_of_mono_le [OF wf this] that
    have "e_offset (es ! k) \<le> e_offset (es ! (length es - 1))"
      using k(1) by (simp add: offset_of_def)
    then show ?thesis using that k(2) n by (simp add: region_ok_def last_conv_nth)
  qed
qed

subsection \<open>Backward iteration\<close>

lemma Prev_restart_loop_wf:
  assumes wf: "well_formed it es" and b: "same_consts it s" and k: "k < length es"
    and r: "region_ok it (e_offset (es ! k)) r"
  shows "\<exists>x. Prev_restart_loop s (e_offset (es ! k)) r = Some x \<and>
           (k = 0 \<longrightarrow> x = None) \<and>
           (0 < k \<longrightarrow> (\<exists>r0. x = Some r0 \<and> r0 < num_restarts it \<and>
                          restart_at it r0 < e_offset (es ! k) \<and>
                          (r0 + 1 < num_restarts it \<longrightarrow>
                             e_offset (es ! k) \<le> restart_at it (r0 + 1))))"
proof -
  have g: "\<And>j. j < num_restarts it \<Longrightarrow> GetRestartPoint s j = Some (restart_at it j)"
    using b by (simp add: GetRestartPoint_def same_consts_def)
  from r have rn: "r < num_restarts it" and rl: "restart_at it r \<le> e_offset (es ! k)"
    and ru: "r + 1 < num_restarts it \<longrightarrow> e_offset (es ! k) \<le> restart_at it (r + 1)"
    by (simp_all add: region_ok_def)
  have z: "e_offset (es ! 0) = restart_at it 0" using wf_entry(6) [OF wf k] .
  have l0: "0 < length es" using k by (cases es) simp_all
  show ?thesis
  proof (cases "restart_at it r < e_offset (es ! k)")
    case True
    then have x: "Prev_restart_loop s (e_offset (es ! k)) r = Some (Some r)"
      using g [OF rn] by (subst Prev_restart_loop.simps) simp
    have "0 < k"
    proof (rule ccontr)
      assume "\<not> 0 < k"
      then have "k = 0" by simp
      with True z have "restart_at it r < restart_at it 0" by simp
      then show False using wf_restart_mono_le [OF wf, of 0 r] rn by simp
    qed
    then show ?thesis using x True rn ru by simp
  next
    case False
    with rl have eq: "restart_at it r = e_offset (es ! k)" by simp
    show ?thesis
    proof (cases "r = 0")
      case True
      then have x: "Prev_restart_loop s (e_offset (es ! k)) r = Some None"
        using g [OF rn] eq by (subst Prev_restart_loop.simps) simp
      have "e_offset (es ! k) = restart_at it r" using eq by (rule sym)
      also have "\<dots> = restart_at it 0" by (simp only: True)
      also have "\<dots> = e_offset (es ! 0)" using z by (rule sym)
      finally have "k = 0" by (rule wf_offset_inj [OF wf k l0])
      then show ?thesis using x by simp
    next
      case False
      then have r1: "r - 1 < r" "r - 1 < num_restarts it" using rn by simp_all
      have lt: "restart_at it (r - 1) < e_offset (es ! k)"
        using wf_restart_mono [OF wf r1(1) rn] eq by simp
      have "Prev_restart_loop s (e_offset (es ! k)) (r - 1) = Some (Some (r - 1))"
        using g [OF r1(2)] lt by (subst Prev_restart_loop.simps) simp
      then have x: "Prev_restart_loop s (e_offset (es ! k)) r = Some (Some (r - 1))"
        using g [OF rn] eq False by (subst Prev_restart_loop.simps) simp
      have "restart_at it 0 \<le> restart_at it (r - 1)"
        using wf_restart_mono_le [OF wf, of 0 "r - 1"] r1(2) by simp
      with lt z have "e_offset (es ! 0) < e_offset (es ! k)" by simp
      then have "0 < k" by (cases k) simp_all
      moreover have "e_offset (es ! k) \<le> restart_at it (r - 1 + 1)"
        using False eq by simp
      ultimately show ?thesis using x lt r1(2) by simp
    qed
  qed
qed

lemma Prev_scan_wf:
  assumes wf: "well_formed it es" and k: "k < length es"
    and u: "r0 + 1 < num_restarts it \<longrightarrow> e_offset (es ! k) \<le> restart_at it (r0 + 1)"
  shows "j < k \<Longrightarrow> region_ok it (e_offset (es ! j)) r0 \<Longrightarrow>
         ParseNextKey s = Some (True, at_entry it (es ! j) r0) \<Longrightarrow>
         Prev_scan s (e_offset (es ! k)) = Some (at_entry it (es ! (k - 1)) r0) \<and>
         region_ok it (e_offset (es ! (k - 1))) r0"
proof (induction "k - j" arbitrary: j s)
  case 0
  then show ?case by simp
next
  case (Suc m)
  from Suc.prems(1) k have j: "j < length es" "j + 1 < length es" by simp_all
  note neo = NextEntryOffset_entry [OF wf j(1), of r0]
  have o: "offset_of it es (j + 1) = e_offset (es ! (j + 1))"
    using j(2) by (simp add: offset_of_def)
  show ?case
  proof (cases "j + 1 < k")
    case True
    have lt: "e_offset (es ! (j + 1)) < e_offset (es ! k)"
      using wf_offset_less_iff [OF wf j(2) k] True by simp
    have u': "r0 + 1 < num_restarts it \<longrightarrow> e_offset (es ! (j + 1)) \<le> restart_at it (r0 + 1)"
      using u lt by auto
    note st = step_same_region [OF wf j(2) Suc.prems(2) u']
    have "m = k - (j + 1)" using Suc.hyps(2) by simp
    from Suc.hyps(1) [OF this True st(2) st(1)]
    have "Prev_scan (at_entry it (es ! j) r0) (e_offset (es ! k))
            = Some (at_entry it (es ! (k - 1)) r0) \<and>
          region_ok it (e_offset (es ! (k - 1))) r0" .
    then show ?thesis using Suc.prems(3) neo o lt
      by (subst Prev_scan.simps) simp
  next
    case False
    with Suc.prems(1) have e: "j = k - 1" "j + 1 = k" by simp_all
    then show ?thesis using Suc.prems(2,3) neo o
      by (subst Prev_scan.simps) simp
  qed
qed

lemma Prev_wf:
  assumes wf: "well_formed it es" and k: "k < length es"
    and r: "region_ok it (e_offset (es ! k)) r"
  shows "if k = 0
         then Prev (at_entry it (es ! k) r) = Some (before_first it es)
         else \<exists>r'. Prev (at_entry it (es ! k) r) = Some (at_entry it (es ! (k - 1)) r') \<and>
                    region_ok it (e_offset (es ! (k - 1))) r'"
proof -
  let ?s = "at_entry it (es ! k) r"
  have v: "Valid ?s" using Valid_at_entry [OF wf k] .
  have b: "same_consts it ?s" "status ?s = status it" by simp_all
  from Prev_restart_loop_wf [OF wf b(1) k r] obtain x where
    x: "Prev_restart_loop ?s (e_offset (es ! k)) r = Some x" "k = 0 \<longrightarrow> x = None"
       "0 < k \<longrightarrow> (\<exists>r0. x = Some r0 \<and> r0 < num_restarts it \<and>
                          restart_at it r0 < e_offset (es ! k) \<and>
                          (r0 + 1 < num_restarts it \<longrightarrow>
                             e_offset (es ! k) \<le> restart_at it (r0 + 1)))"
    by blast
  show ?thesis
  proof (cases "k = 0")
    case True
    have "?s\<lparr>current := restarts ?s, restart_index := num_restarts ?s\<rparr> = before_first it es"
      using True by (simp add: before_first_def at_entry_def)
    then show ?thesis using True x(1,2) v by (simp add: Prev_def)
  next
    case False
    with x(3) obtain r0 where r0: "x = Some r0" "r0 < num_restarts it"
      "restart_at it r0 < e_offset (es ! k)"
      "r0 + 1 < num_restarts it \<longrightarrow> e_offset (es ! k) \<le> restart_at it (r0 + 1)"
      by auto
    have ne: "es \<noteq> []" using k by auto
    have sr: "SeekToRestartPoint (?s\<lparr>restart_index := r0\<rparr>) r0 = Some (restart_state ?s r0)"
      using SeekToRestartPoint_eq [of r0 "?s\<lparr>restart_index := r0\<rparr>"] r0(2) by simp
    from step_from_restart [OF wf b r0(2)] ne obtain a where
      a: "a < length es" "e_offset (es ! a) = restart_at it r0"
         "ParseNextKey (restart_state ?s r0) = Some (True, at_entry it (es ! a) r0)"
         "region_ok it (e_offset (es ! a)) r0" by auto
    have ak: "a < k" using wf_offset_less_iff [OF wf a(1) k] a(2) r0(3) by simp
    from Prev_scan_wf [OF wf k r0(4) ak a(4,3)]
    have "Prev_scan (restart_state ?s r0) (e_offset (es ! k))
            = Some (at_entry it (es ! (k - 1)) r0)"
      "region_ok it (e_offset (es ! (k - 1))) r0" by simp_all
    then show ?thesis using False x(1) r0(1) sr v by (auto simp: Prev_def)
  qed
qed

lemma Prev_keys_wf:
  assumes wf: "well_formed it es"
  shows "k < length es \<Longrightarrow> region_ok it (e_offset (es ! k)) r \<Longrightarrow>
         Prev_keys (at_entry it (es ! k) r) = Some (rev (map e_key (take (k + 1) es)))"
proof (induction k arbitrary: r)
  case 0
  note v = Valid_at_entry [OF wf 0(1), of r]
  from Prev_wf [OF wf 0] have p: "Prev (at_entry it (es ! 0) r) = Some (before_first it es)"
    by simp
  have "Prev_keys (before_first it es) = Some []"
    by (subst Prev_keys.simps) simp
  moreover have "take 1 es = [es ! 0]" using 0(1) by (cases es) simp_all
  ultimately show ?case using v p
    by (subst Prev_keys.simps) simp
next
  case (Suc k)
  note v = Valid_at_entry [OF wf Suc.prems(1), of r]
  from Prev_wf [OF wf Suc.prems] obtain r' where
    p: "Prev (at_entry it (es ! Suc k) r) = Some (at_entry it (es ! k) r')"
       "region_ok it (e_offset (es ! k)) r'" by auto
  from Suc.prems(1) have k: "k < length es" by simp
  from Suc.IH [OF k p(2)]
  have "Prev_keys (at_entry it (es ! k) r') = Some (rev (map e_key (take (k + 1) es)))" .
  moreover have "take (Suc k + 1) es = take (k + 1) es @ [es ! Suc k]"
    using Suc.prems(1) by (simp add: take_Suc_conv_app_nth)
  ultimately show ?case using v p(1)
    by (subst Prev_keys.simps) simp
qed

lemma keys_backward_wf:
  assumes wf: "well_formed it es"
  shows "keys_backward it = Some (rev (map e_key es))"
proof (cases "es = []")
  case True
  have "Prev_keys (past_end it es) = Some []"
    by (subst Prev_keys.simps) simp
  then show ?thesis using SeekToLast_wf(1) [OF wf] True by (simp add: keys_backward_def)
next
  case False
  then have l: "length es - 1 < length es" by simp
  have e: "last es = es ! (length es - 1)" using False by (simp add: last_conv_nth)
  from Prev_keys_wf [OF wf l] SeekToLast_wf(2) [OF wf False] e
  have "Prev_keys (at_entry it (last es) (num_restarts it - 1))
          = Some (rev (map e_key (take (length es - 1 + 1) es)))" by simp
  moreover have "take (length es - 1 + 1) es = es" using False by simp
  ultimately show ?thesis using SeekToLast_wf(1) [OF wf] False
    by (simp add: keys_backward_def)
qed

subsection \<open>Iteration order: claim C2\<close>

lemma example_well_formed: "well_formed example_iter example_entries"
  by (simp add: well_formed_def example_entries_def example_iter_def example_data_def
        entry_at_def next_offset_def DecodeEntry_def DecodeFixed32_def BytewiseCompare_def
        upt_rec)

text \<open>
  Claim C2. On a well-formed block with the entries \<open>es\<close>, \<open>SeekToFirst\<close> followed
  by \<open>Next\<close> until the iterator is not Valid observes the keys of \<open>es\<close> in their
  order, which is strictly ascending under the comparator, and \<open>SeekToLast\<close> followed
  by \<open>Prev\<close> until the iterator is not Valid observes the same sequence reversed.
  Both loops end.
\<close>

theorem iteration_order:
  assumes "well_formed it es"
  shows "keys_forward it = Some (map e_key es) \<and>
         sorted_wrt (\<lambda>a b. Compare it a b < 0) (map e_key es) \<and>
         keys_backward it = Some (rev (map e_key es))"
proof -
  from assms have "sorted_wrt (\<lambda>a b. comparator it (e_key a) (e_key b) < 0) es"
    by (simp add: well_formed_def)
  then have "sorted_wrt (\<lambda>a b. Compare it a b < 0) (map e_key es)"
    by (simp add: sorted_wrt_map Compare_def)
  then show ?thesis
    using keys_forward_wf [OF assms] keys_backward_wf [OF assms] by simp
qed

text \<open>The example block of the spec: the keys "a", "ab", "b", restart interval 2.\<close>

theorem iteration_order_witness:
  "well_formed example_iter example_entries \<and>
   keys_forward example_iter = Some [[0x61], [0x61, 0x62], [0x62]] \<and>
   keys_backward example_iter = Some [[0x62], [0x61, 0x62], [0x61]]"
  using iteration_order [OF example_well_formed] example_well_formed
  by (simp add: example_entries_def)

subsection \<open>The binary search of Seek\<close>

lemma seek_index_le: "seek_index it es t \<le> length es"
  by (simp add: seek_index_def length_takeWhile_le)

lemma seek_index_less_iff:
  assumes wf: "well_formed it es" and cok: "comparator_ok (comparator it)"
    and i: "i < length es"
  shows "Compare it (e_key (es ! i)) t < 0 \<longleftrightarrow> i < seek_index it es t"
proof
  let ?P = "\<lambda>e. Compare it (e_key e) t < 0"
  let ?m = "seek_index it es t"
  show "Compare it (e_key (es ! i)) t < 0" if "i < ?m"
  proof -
    from that have l: "i < length (takeWhile ?P es)" by (simp add: seek_index_def)
    then have "takeWhile ?P es ! i \<in> set (takeWhile ?P es)" by (rule nth_mem)
    then have "?P (takeWhile ?P es ! i)" by (rule set_takeWhileD [THEN conjunct2])
    then show ?thesis using takeWhile_nth [OF l] by simp
  qed
  show "i < ?m" if c: "Compare it (e_key (es ! i)) t < 0"
  proof (rule ccontr)
    assume "\<not> i < ?m"
    then have mi: "?m \<le> i" by simp
    with i have ml: "length (takeWhile ?P es) < length es" by (simp add: seek_index_def)
    from nth_length_takeWhile [OF ml] have n: "\<not> Compare it (e_key (es ! ?m)) t < 0"
      by (simp add: seek_index_def)
    show False
    proof (cases "?m = i")
      case True
      with n c show False by simp
    next
      case False
      with mi have lt: "?m < i" by simp
      from wf have "sorted_wrt (\<lambda>a b. comparator it (e_key a) (e_key b) < 0) es"
        by (simp add: well_formed_def)
      from sorted_wrt_nth_less [OF this lt i]
      have "comparator it (e_key (es ! ?m)) (e_key (es ! i)) < 0" .
      moreover from c have "comparator it (e_key (es ! i)) t \<le> 0" by (simp add: Compare_def)
      ultimately have "comparator it (e_key (es ! ?m)) t < 0"
        using cok unfolding comparator_ok_def by blast
      with n show False by (simp add: Compare_def)
    qed
  qed
qed

lemma seek_index_offset_iff:
  assumes wf: "well_formed it es" and cok: "comparator_ok (comparator it)"
    and i: "i < length es"
  shows "Compare it (e_key (es ! i)) t < 0 \<longleftrightarrow>
         e_offset (es ! i) < offset_of it es (seek_index it es t)"
proof -
  have "e_offset (es ! i) = offset_of it es i" using i by (simp add: offset_of_def)
  then show ?thesis
    using seek_index_less_iff [OF wf cok i, of t]
      offset_of_less_iff [OF wf, of i "seek_index it es t"] i seek_index_le [of it es t]
    by simp
qed

lemma restart_bound_unique:
  assumes wf: "well_formed it es" and a: "restart_bound it off a" and b: "restart_bound it off b"
  shows "a = b"
proof -
  have less: "False" if "restart_bound it off x" "restart_bound it off y" "x < y" for x y
  proof -
    from that have y: "y < num_restarts it" "restart_at it y < off"
      by (auto simp: restart_bound_def)
    from that y have x: "off \<le> restart_at it (x + 1)"
      by (auto simp: restart_bound_def)
    have "restart_at it (x + 1) \<le> restart_at it y"
      using wf_restart_mono_le [OF wf, of "x + 1" y] that(3) y(1) by simp
    with x y show False by simp
  qed
  show ?thesis
    using less [OF a b] less [OF b a] by (cases "a < b"; cases "b < a") auto
qed

lemma restart_bound_region:
  assumes wf: "well_formed it es" and b: "restart_bound it (offset_of it es m) L"
    and m: "m \<le> length es"
  shows "region_ok it (offset_of it es m) L"
proof -
  have "restart_at it L \<le> offset_of it es m"
  proof (cases "L = 0")
    case True
    show ?thesis
    proof (cases "es = []")
      case True
      then show ?thesis using wf_empty wf \<open>L = 0\<close> by (simp add: offset_of_def)
    next
      case False
      then have l: "0 < length es" by simp
      have "offset_of it es 0 \<le> offset_of it es m"
        using offset_of_mono_le [OF wf, of 0 m] m by simp
      then show ?thesis using wf_entry(6) [OF wf l] l True by (simp add: offset_of_def)
    qed
  next
    case False
    then show ?thesis using b by (auto simp: restart_bound_def)
  qed
  then show ?thesis using b by (simp add: restart_bound_def region_ok_def)
qed

text \<open>The key that the binary search decodes at a restart point.\<close>

lemma restart_key:
  assumes wf: "well_formed it es" and j: "0 < j" "j < num_restarts it"
  shows "\<exists>k ns vl q. k < length es \<and> e_offset (es ! k) = restart_at it j \<and>
           DecodeEntry (data it) (restart_at it j) (restarts it) = Some (0, ns, vl, q) \<and>
           take ns (drop q (data it)) = e_key (es ! k) \<and> q + ns \<le> length (data it)"
proof -
  from wf_restart_entry [OF wf j(2)] j(1) obtain k where
    k: "k < length es" "e_offset (es ! k) = restart_at it j" "e_shared (es ! k) = 0" by auto
  from entry_at_facts(6) [OF wf_entry(1) [OF wf k(1)]] obtain ns q where
    "DecodeEntry (data it) (e_offset (es ! k)) (restarts it)
       = Some (e_shared (es ! k), ns, e_value_size (es ! k), q)"
    "e_key (es ! k) = take (e_shared (es ! k)) (prev_key es k) @ take ns (drop q (data it))"
    "q + ns + e_value_size (es ! k) \<le> restarts it"
    by blast
  then show ?thesis using k wf_basic(4) [OF wf] by auto
qed

lemma Seek_restart_loop_wf:
  assumes wf: "well_formed it es" and cok: "comparator_ok (comparator it)"
  shows "left \<le> right \<Longrightarrow> right < num_restarts it \<Longrightarrow>
     left = 0 \<or> restart_at it left < offset_of it es (seek_index it es t) \<Longrightarrow>
     right + 1 < num_restarts it \<longrightarrow>
        offset_of it es (seek_index it es t) \<le> restart_at it (right + 1) \<Longrightarrow>
     \<exists>L. Seek_restart_loop it t left right = Some (Some L) \<and> left \<le> L \<and> L \<le> right \<and>
         restart_bound it (offset_of it es (seek_index it es t)) L"
proof (induction "right - left" arbitrary: left right rule: less_induct)
  case less
  let ?T = "offset_of it es (seek_index it es t)"
  show ?case
  proof (cases "left < right")
    case False
    with less.prems have "left = right" by simp
    then show ?thesis using less.prems
      by (subst Seek_restart_loop.simps) (simp add: restart_bound_def)
  next
    case True
    let ?mid = "(left + right + 1) div 2"
    have m: "left < ?mid" "?mid \<le> right" "0 < ?mid" using True by auto
    have u: "?mid < num_restarts it" using m less.prems by simp
    from restart_key [OF wf m(3) u] obtain k ns vl q where
      k: "k < length es" "e_offset (es ! k) = restart_at it ?mid"
         "DecodeEntry (data it) (restart_at it ?mid) (restarts it) = Some (0, ns, vl, q)"
         "take ns (drop q (data it)) = e_key (es ! k)" "q + ns \<le> length (data it)"
      by blast
    have rb: "right < 2 ^ 31" using less.prems(2) wf_basic(5) [OF wf] by simp
    have c: "Compare it (e_key (es ! k)) t < 0 \<longleftrightarrow> restart_at it ?mid < ?T"
      using seek_index_offset_iff [OF wf cok k(1), of t] k(2) by simp
    show ?thesis
    proof (cases "restart_at it ?mid < ?T")
      case lt: True
      have "\<exists>L. Seek_restart_loop it t ?mid right = Some (Some L) \<and> ?mid \<le> L \<and> L \<le> right \<and>
              restart_bound it ?T L"
        using less.hyps [of right ?mid] m less.prems lt by simp
      then obtain L where L: "Seek_restart_loop it t ?mid right = Some (Some L)"
        "?mid \<le> L" "L \<le> right" "restart_bound it ?T L" by blast
      have "Seek_restart_loop it t left right = Some (Some L)"
        unfolding Seek_restart_loop_unfold [OF True rb u] k(3) using k(4,5) c lt L(1) by simp
      then show ?thesis using L m by simp
    next
      case ge: False
      have "?mid - 1 + 1 = ?mid" using m by simp
      then have hi: "?mid - 1 + 1 < num_restarts it \<longrightarrow> ?T \<le> restart_at it (?mid - 1 + 1)"
        using ge by simp
      have "\<exists>L. Seek_restart_loop it t left (?mid - 1) = Some (Some L) \<and> left \<le> L \<and>
              L \<le> ?mid - 1 \<and> restart_bound it ?T L"
        using less.hyps [of "?mid - 1" left] m less.prems(2,3) hi by simp
      then obtain L where L: "Seek_restart_loop it t left (?mid - 1) = Some (Some L)"
        "left \<le> L" "L \<le> ?mid - 1" "restart_bound it ?T L" by blast
      have "Seek_restart_loop it t left right = Some (Some L)"
        unfolding Seek_restart_loop_unfold [OF True rb u] k(3) using k(4,5) c ge L(1) by simp
      then show ?thesis using L m by simp
    qed
  qed
qed

subsection \<open>The linear search of Seek\<close>

lemma on_entry_at_entry:
  "on_entry it e \<Longrightarrow> at_entry it e (restart_index it) = it"
  by (intro Iter_eqI) (simp_all add: on_entry_def)

lemma on_entry_at_entry' [simp]: "on_entry (at_entry it e r) e"
  by (simp add: on_entry_def)

lemma positioned_entry:
  assumes "positioned it es" "Valid it"
  obtains k where "k < length es" "it = at_entry it (es ! k) (restart_index it)"
    "region_ok it (e_offset (es ! k)) (restart_index it)" "current it = e_offset (es ! k)"
    "key it = e_key (es ! k)"
proof -
  from assms have "list_ex (on_entry it) es" and r: "region_ok it (current it) (restart_index it)"
    by (simp_all add: positioned_def)
  then obtain k where k: "k < length es" "on_entry it (es ! k)"
    by (auto simp: list_ex_iff in_set_conv_nth)
  from k(2) have "current it = e_offset (es ! k)" "key it = e_key (es ! k)"
    by (simp_all add: on_entry_def)
  with that [OF k(1)] on_entry_at_entry [OF k(2)] r show ?thesis by simp
qed

lemma positioned_at_entry:
  assumes "well_formed it es" "k < length es" "region_ok it (e_offset (es ! k)) r"
  shows "positioned (at_entry it (es ! k) r) es"
proof -
  have "es ! k \<in> set es" using assms(2) by (rule nth_mem)
  then have "list_ex (on_entry (at_entry it (es ! k) r)) es"
    unfolding list_ex_iff by (rule bexI [rotated]) simp
  moreover have "region_ok (at_entry it (es ! k) r) (e_offset (es ! k)) r"
    using assms(3) by (simp add: region_ok_def)
  ultimately show ?thesis using Valid_at_entry [OF assms(1,2), of r]
    by (simp add: positioned_def)
qed

lemma positioned_past_end [simp]: "positioned (past_end it es) es"
  by (simp add: positioned_def) (simp add: past_end_def)

lemma positioned_before_first [simp]: "positioned (before_first it es) es"
  by (simp add: positioned_def) (simp add: before_first_def)

text \<open>The linear search, continued from an entry whose key is less than the target.\<close>

lemma Seek_scan_from_entry:
  assumes wf: "well_formed it es" and cok: "comparator_ok (comparator it)"
    and hi: "L + 1 < num_restarts it \<longrightarrow>
               offset_of it es (seek_index it es t) \<le> restart_at it (L + 1)"
  shows "k < length es \<Longrightarrow> k < seek_index it es t \<Longrightarrow>
         region_ok it (e_offset (es ! k)) L \<Longrightarrow>
         Seek_scan (at_entry it (es ! k) L) t = Some (seek_result it es t L)"
proof (induction "length es - k" arbitrary: k)
  case 0
  then show ?case by simp
next
  case (Suc n)
  let ?m = "seek_index it es t"
  show ?case
  proof (cases "k + 1 < length es")
    case False
    with Suc.prems(1,2) seek_index_le [of it es t] have m: "?m = length es" by simp
    from step_from_entry [OF wf Suc.prems(1,3)] False
    have "ParseNextKey (at_entry it (es ! k) L) = Some (False, past_end it es)" by simp
    then have "Seek_scan (at_entry it (es ! k) L) t = Some (past_end it es)"
      by (subst Seek_scan.simps) simp
    then show ?thesis using m by (simp add: seek_result_def)
  next
    case True
    have "offset_of it es (k + 1) \<le> offset_of it es ?m"
      using offset_of_mono_le [OF wf, of "k + 1" ?m] Suc.prems(2) seek_index_le [of it es t]
      by simp
    then have u: "L + 1 < num_restarts it \<longrightarrow> e_offset (es ! (k + 1)) \<le> restart_at it (L + 1)"
      using hi True by (auto simp: offset_of_def)
    note st = step_same_region [OF wf True Suc.prems(3) u]
    have cmp: "Compare (at_entry it (es ! (k + 1)) L) (key (at_entry it (es ! (k + 1)) L)) t
                 = Compare it (e_key (es ! (k + 1))) t"
      by (simp add: Compare_def)
    show ?thesis
    proof (cases "k + 1 < ?m")
      case lt: True
      then have c: "Compare it (e_key (es ! (k + 1))) t < 0"
        using seek_index_less_iff [OF wf cok True] by simp
      have "n = length es - (k + 1)" using Suc.hyps(2) by simp
      from Suc.hyps(1) [OF this True lt st(2)]
      have "Seek_scan (at_entry it (es ! (k + 1)) L) t = Some (seek_result it es t L)" .
      then show ?thesis using st(1) c cmp
        by (subst Seek_scan.simps) simp
    next
      case ge: False
      with Suc.prems(2) have m: "?m = k + 1" by simp
      have c: "\<not> Compare it (e_key (es ! (k + 1))) t < 0"
        using seek_index_less_iff [OF wf cok True, of t] ge by simp
      have "Seek_scan (at_entry it (es ! k) L) t = Some (at_entry it (es ! (k + 1)) L)"
        using st(1) c cmp by (subst Seek_scan.simps) simp
      then show ?thesis using m True by (simp add: seek_result_def)
    qed
  qed
qed

text \<open>The linear search, from a state whose next parse gives an entry not after the target.\<close>

lemma Seek_scan_from_parse:
  assumes wf: "well_formed it es" and cok: "comparator_ok (comparator it)"
    and hi: "L + 1 < num_restarts it \<longrightarrow>
               offset_of it es (seek_index it es t) \<le> restart_at it (L + 1)"
    and k: "k < length es" "k \<le> seek_index it es t"
    and r: "region_ok it (e_offset (es ! k)) L"
    and p: "ParseNextKey s = Some (True, at_entry it (es ! k) L)"
  shows "Seek_scan s t = Some (seek_result it es t L)"
proof (cases "k < seek_index it es t")
  case True
  then have c: "Compare it (e_key (es ! k)) t < 0"
    using seek_index_less_iff [OF wf cok k(1)] by simp
  have "Seek_scan s t = Seek_scan (at_entry it (es ! k) L) t"
    using p c by (subst Seek_scan.simps) (simp add: Compare_def)
  then show ?thesis using Seek_scan_from_entry [OF wf cok hi k(1) True r] by simp
next
  case False
  with k(2) have m: "seek_index it es t = k" by simp
  have c: "\<not> Compare it (e_key (es ! k)) t < 0"
    using seek_index_less_iff [OF wf cok k(1), of t] False by simp
  have "Seek_scan s t = Some (at_entry it (es ! k) L)"
    using p c by (subst Seek_scan.simps) (simp add: Compare_def)
  then show ?thesis using m k(1) by (simp add: seek_result_def)
qed

text \<open>The linear search after \<open>SeekToRestartPoint\<close>.\<close>

lemma Seek_scan_from_restart:
  assumes wf: "well_formed it es" and cok: "comparator_ok (comparator it)"
    and b: "restart_bound it (offset_of it es (seek_index it es t)) L"
  shows "Seek_scan (restart_state it L) t = Some (seek_result it es t L)"
proof -
  let ?m = "seek_index it es t"
  from b have L: "L < num_restarts it"
    and lo: "L = 0 \<or> restart_at it L < offset_of it es ?m"
    and hi: "L + 1 < num_restarts it \<longrightarrow> offset_of it es ?m \<le> restart_at it (L + 1)"
    by (simp_all add: restart_bound_def)
  note st = step_from_restart [OF wf same_consts_refl refl L]
  show ?thesis
  proof (cases "es = []")
    case True
    with st have "ParseNextKey (restart_state it L) = Some (False, past_end it es)" by simp
    then have "Seek_scan (restart_state it L) t = Some (past_end it es)"
      by (subst Seek_scan.simps) simp
    then show ?thesis using True by (simp add: seek_result_def)
  next
    case False
    with st obtain k where k: "k < length es" "e_offset (es ! k) = restart_at it L"
      "ParseNextKey (restart_state it L) = Some (True, at_entry it (es ! k) L)"
      "region_ok it (e_offset (es ! k)) L" by auto
    have "k \<le> ?m"
    proof (cases "L = 0")
      case True
      have "k = 0"
        using wf_offset_inj [OF wf k(1), of 0] wf_entry(6) [OF wf k(1)] k(2) False True by simp
      then show ?thesis by simp
    next
      case False
      with lo k(2) have "offset_of it es k < offset_of it es ?m"
        using k(1) by (simp add: offset_of_def)
      then show ?thesis
        using offset_of_less_iff [OF wf, of k ?m] k(1) seek_index_le [of it es t] by simp
    qed
    from Seek_scan_from_parse [OF wf cok hi k(1) this k(4,3)] show ?thesis .
  qed
qed

subsection \<open>Seek\<close>

lemma seek_index_equal:
  assumes wf: "well_formed it es" and cok: "comparator_ok (comparator it)"
    and k: "k < length es" and c: "Compare it (e_key (es ! k)) t = 0"
  shows "seek_index it es t = k"
proof -
  let ?m = "seek_index it es t"
  have "\<not> k < ?m" using seek_index_less_iff [OF wf cok k, of t] c by simp
  moreover have "\<not> ?m < k"
  proof
    assume lt: "?m < k"
    then have ml: "?m < length es" using k by simp
    from wf have "sorted_wrt (\<lambda>a b. comparator it (e_key a) (e_key b) < 0) es"
      by (simp add: well_formed_def)
    from sorted_wrt_nth_less [OF this lt k]
    have "comparator it (e_key (es ! ?m)) (e_key (es ! k)) < 0" .
    moreover from c have "comparator it (e_key (es ! k)) t \<le> 0" by (simp add: Compare_def)
    ultimately have "comparator it (e_key (es ! ?m)) t < 0"
      using cok unfolding comparator_ok_def by blast
    then show False using seek_index_less_iff [OF wf cok ml, of t] by (simp add: Compare_def)
  qed
  ultimately show ?thesis by simp
qed

lemma Seek_wf:
  assumes wf: "well_formed it es" and cok: "comparator_ok (comparator it)"
    and pos: "positioned it es"
  shows "if Valid it \<and> Compare it (key it) t = 0
         then Seek it t = Some it
         else \<exists>L. restart_bound it (offset_of it es (seek_index it es t)) L \<and>
                   Seek it t = Some (seek_result it es t L)"
proof (cases "Valid it \<and> Compare it (key it) t = 0")
  case True
  then show ?thesis by (simp add: Seek_def)
next
  case False
  let ?m = "seek_index it es t"
  let ?T = "offset_of it es ?m"
  let ?left = "if Valid it \<and> Compare it (key it) t < 0 then restart_index it else 0"
  let ?right = "if Valid it \<and> Compare it (key it) t > 0 then restart_index it
                else num_restarts it - 1"
  note n = wf_basic(1) [OF wf]
  have pre: "?left \<le> ?right \<and> ?right < num_restarts it \<and>
             (?left = 0 \<or> restart_at it ?left < ?T) \<and>
             (?right + 1 < num_restarts it \<longrightarrow> ?T \<le> restart_at it (?right + 1))"
  proof (cases "Valid it")
    case nv: False
    then show ?thesis using n by simp
  next
    case v: True
    from positioned_entry [OF pos v] obtain k where
      k: "k < length es" "region_ok it (e_offset (es ! k)) (restart_index it)"
         "key it = e_key (es ! k)" by blast
    from k(2) have r: "restart_index it < num_restarts it"
      "restart_at it (restart_index it) \<le> e_offset (es ! k)"
      "restart_index it + 1 < num_restarts it \<longrightarrow>
         e_offset (es ! k) \<le> restart_at it (restart_index it + 1)"
      by (simp_all add: region_ok_def)
    show ?thesis
    proof (cases "Compare it (key it) t < 0")
      case True
      then have "e_offset (es ! k) < ?T"
        using seek_index_offset_iff [OF wf cok k(1), of t] k(3) by simp
      then show ?thesis using True v r by simp
    next
      case nlt: False
      then have "\<not> k < ?m" using seek_index_less_iff [OF wf cok k(1), of t] k(3) by simp
      then have "?m \<le> k" by simp
      from offset_of_mono_le [OF wf this] k(1) have "?T \<le> e_offset (es ! k)"
        by (simp add: offset_of_def)
      moreover have "Compare it (key it) t > 0" using nlt False v by simp
      ultimately show ?thesis using v r nlt by auto
    qed
  qed
  from Seek_restart_loop_wf [OF wf cok, of ?left ?right t] pre obtain L where
    L: "Seek_restart_loop it t ?left ?right = Some (Some L)" "?left \<le> L"
       "restart_bound it ?T L" by blast
  from L(3) have Ln: "L < num_restarts it" by (simp add: restart_bound_def)
  have "Seek it t = Some (seek_result it es t L)"
  proof (cases "L = restart_index it \<and> Valid it \<and> Compare it (key it) t < 0")
    case skip: True
    then have v: "Valid it" by simp
    from positioned_entry [OF pos v] obtain k where
      k: "k < length es" "it = at_entry it (es ! k) (restart_index it)"
         "region_ok it (e_offset (es ! k)) (restart_index it)"
         "key it = e_key (es ! k)" by blast
    have km: "k < ?m" using seek_index_less_iff [OF wf cok k(1), of t] k(4) skip by simp
    have hi: "L + 1 < num_restarts it \<longrightarrow> ?T \<le> restart_at it (L + 1)"
      using L(3) by (simp add: restart_bound_def)
    have r: "region_ok it (e_offset (es ! k)) L" using k(3) skip by simp
    from Seek_scan_from_entry [OF wf cok hi k(1) km r]
    have "Seek_scan (at_entry it (es ! k) L) t = Some (seek_result it es t L)" .
    moreover have "at_entry it (es ! k) L = it" using k(2) skip by simp
    ultimately have "Seek_scan it t = Some (seek_result it es t L)" by simp
    then show ?thesis
      unfolding Seek_unfold [OF False] L(1) using skip by simp
  next
    case noskip: False
    have "Seek_scan (restart_state it L) t = Some (seek_result it es t L)"
      using Seek_scan_from_restart [OF wf cok L(3)] .
    then show ?thesis
      unfolding Seek_unfold [OF False] L(1) using noskip SeekToRestartPoint_eq [OF Ln]
      by simp
  qed
  then show ?thesis using False L(3) by auto
qed

lemma seek_result_fields [simp]:
  "same_consts it (seek_result it es t L)" "status (seek_result it es t L) = status it"
  by (simp_all add: seek_result_def past_end_def same_consts_def)

lemma past_end_fields [simp]:
  "same_consts it (past_end it es)" "status (past_end it es) = status it"
  by (simp_all add: past_end_def same_consts_def)

lemma before_first_fields [simp]:
  "same_consts it (before_first it es)" "status (before_first it es) = status it"
  by (simp_all add: before_first_def same_consts_def)

lemma positioned_seek_result:
  assumes wf: "well_formed it es"
    and r: "seek_index it es t < length es \<longrightarrow>
              region_ok it (e_offset (es ! seek_index it es t)) L"
  shows "positioned (seek_result it es t L) es"
  using positioned_at_entry [OF wf, of "seek_index it es t" L] r
  by (simp add: seek_result_def)

text \<open>Every result of \<open>Seek\<close> on a well-formed block is the state at the seek index.\<close>

lemma Seek_result:
  assumes wf: "well_formed it es" and cok: "comparator_ok (comparator it)"
    and pos: "positioned it es"
  shows "\<exists>L. Seek it t = Some (seek_result it es t L) \<and>
             (seek_index it es t < length es \<longrightarrow>
                region_ok it (e_offset (es ! seek_index it es t)) L)"
proof (cases "Valid it \<and> Compare it (key it) t = 0")
  case True
  then have v: "Valid it" by simp
  from positioned_entry [OF pos v] obtain k where
    k: "k < length es" "it = at_entry it (es ! k) (restart_index it)"
       "region_ok it (e_offset (es ! k)) (restart_index it)"
       "key it = e_key (es ! k)" by blast
  have m: "seek_index it es t = k"
    using seek_index_equal [OF wf cok k(1), of t] True k(4) by simp
  have "seek_result it es t (restart_index it) = it"
    using m k(1) k(2) by (simp add: seek_result_def)
  moreover have "Seek it t = Some it" using Seek_wf [OF wf cok pos, of t] True by simp
  ultimately have "Seek it t = Some (seek_result it es t (restart_index it))" by simp
  moreover have "region_ok it (e_offset (es ! seek_index it es t)) (restart_index it)"
    using m k(3) by simp
  ultimately show ?thesis by blast
next
  case False
  with Seek_wf [OF wf cok pos, of t] obtain L where
    L: "restart_bound it (offset_of it es (seek_index it es t)) L"
       "Seek it t = Some (seek_result it es t L)" by auto
  from restart_bound_region [OF wf L(1) seek_index_le]
  have "region_ok it (offset_of it es (seek_index it es t)) L" .
  then show ?thesis using L(2) by (auto simp: offset_of_def)
qed

lemma Iter_op_positioned:
  assumes wf: "well_formed it es" and cok: "comparator_ok (comparator it)"
    and pos: "positioned it es" and op: "Iter_op op it = Some it'"
  shows "positioned it' es \<and> same_consts it it' \<and> status it' = status it"
proof (cases op)
  case OpNext
  with op have v: "Valid it" and nx: "Next it = Some it'"
    by (auto simp: Next_def split: if_splits)
  from positioned_entry [OF pos v] obtain k where
    k: "k < length es" "it = at_entry it (es ! k) (restart_index it)"
       "region_ok it (e_offset (es ! k)) (restart_index it)" by blast
  note n = Next_wf [OF wf k(1,3)]
  show ?thesis
  proof (cases "k + 1 < length es")
    case True
    with n obtain r' where
      "Next (at_entry it (es ! k) (restart_index it)) = Some (at_entry it (es ! (k + 1)) r')"
      "region_ok it (e_offset (es ! (k + 1))) r'" by auto
    with nx k(2) have "it' = at_entry it (es ! (k + 1)) r'"
      "region_ok it (e_offset (es ! (k + 1))) r'" by simp_all
    then show ?thesis using positioned_at_entry [OF wf True] by simp
  next
    case False
    with n have "Next (at_entry it (es ! k) (restart_index it)) = Some (past_end it es)"
      by simp
    with nx k(2) have "it' = past_end it es" by simp
    then show ?thesis by simp
  qed
next
  case OpPrev
  with op have v: "Valid it" and pv: "Prev it = Some it'"
    by (auto simp: Prev_def split: if_splits)
  from positioned_entry [OF pos v] obtain k where
    k: "k < length es" "it = at_entry it (es ! k) (restart_index it)"
       "region_ok it (e_offset (es ! k)) (restart_index it)" by blast
  note p = Prev_wf [OF wf k(1,3)]
  show ?thesis
  proof (cases "k = 0")
    case True
    with p have "Prev (at_entry it (es ! k) (restart_index it)) = Some (before_first it es)"
      by simp
    with pv k(2) have "it' = before_first it es" by simp
    then show ?thesis by simp
  next
    case False
    with p obtain r' where
      "Prev (at_entry it (es ! k) (restart_index it)) = Some (at_entry it (es ! (k - 1)) r')"
      "region_ok it (e_offset (es ! (k - 1))) r'" by auto
    with pv k(2) have "it' = at_entry it (es ! (k - 1)) r'"
      "region_ok it (e_offset (es ! (k - 1))) r'" by simp_all
    moreover have "k - 1 < length es" using k(1) by simp
    ultimately show ?thesis using positioned_at_entry [OF wf] by simp
  qed
next
  case (OpSeek t)
  from Seek_result [OF wf cok pos, of t] obtain L where
    L: "Seek it t = Some (seek_result it es t L)"
    "seek_index it es t < length es \<longrightarrow>
       region_ok it (e_offset (es ! seek_index it es t)) L" by blast
  from op OpSeek L(1) have "it' = seek_result it es t L" by simp
  then show ?thesis using positioned_seek_result [OF wf L(2)] by simp
next
  case OpSeekToFirst
  with op SeekToFirst_wf(1) [OF wf]
  have i: "it' = (if es = [] then past_end it es else at_entry it (es ! 0) 0)" by simp
  show ?thesis
  proof (cases "es = []")
    case True
    with i show ?thesis by simp
  next
    case False
    then have "0 < length es" by simp
    from positioned_at_entry [OF wf this SeekToFirst_wf(2) [OF wf False]] i False
    show ?thesis by simp
  qed
next
  case OpSeekToLast
  with op SeekToLast_wf(1) [OF wf]
  have i: "it' = (if es = [] then past_end it es
                  else at_entry it (last es) (num_restarts it - 1))" by simp
  show ?thesis
  proof (cases "es = []")
    case True
    with i show ?thesis by simp
  next
    case False
    then have l: "length es - 1 < length es" "last es = es ! (length es - 1)"
      by (simp_all add: last_conv_nth)
    from positioned_at_entry [OF wf l(1)] SeekToLast_wf(2) [OF wf False] l(2) i False
    show ?thesis by simp
  qed
qed

lemma Iter_ops_positioned:
  "well_formed it es \<Longrightarrow> comparator_ok (comparator it) \<Longrightarrow> positioned it es \<Longrightarrow>
   Iter_ops ops it = Some it' \<Longrightarrow>
   positioned it' es \<and> same_consts it it' \<and> status it' = status it"
proof (induction ops arbitrary: it)
  case Nil
  then show ?case by simp
next
  case (Cons op ops)
  from Cons.prems(4) obtain it1 where
    s: "Iter_op op it = Some it1" "Iter_ops ops it1 = Some it'"
    by (auto split: option.splits)
  from Iter_op_positioned [OF Cons.prems(1-3) s(1)] have
    p: "positioned it1 es" "same_consts it it1" "status it1 = status it" by simp_all
  have w: "well_formed it1 es" using wf_consts [OF Cons.prems(1) p(2)] .
  have c: "comparator_ok (comparator it1)"
    using Cons.prems(2) p(2) by (simp add: same_consts_def)
  from Cons.IH [OF w c p(1) s(2)] p(2,3) show ?case
    using same_consts_trans by auto
qed

lemma Iter_init_positioned:
  "Iter_init cmp d r n = Some it \<Longrightarrow> positioned it es \<and> status it = OK"
  by (auto simp: Iter_init_def positioned_def Valid_def split: if_splits)

subsection \<open>Seek and the fresh iterator: claims C1, C6 and C8\<close>

lemma BytewiseCompare_ok: "comparator_ok BytewiseCompare"
  unfolding comparator_ok_def BytewiseCompare_def
  by (auto split: if_splits)

lemma consts_seek_index:
  "same_consts it s \<Longrightarrow> seek_index s es t = seek_index it es t"
  by (simp add: seek_index_def Compare_def same_consts_def)

lemma consts_offset_of:
  "same_consts it s \<Longrightarrow> offset_of s es k = offset_of it es k"
  by (simp add: offset_of_def same_consts_def)

lemma consts_restart_bound:
  "same_consts it s \<Longrightarrow> restart_bound s off L = restart_bound it off L"
  by (simp add: restart_bound_def same_consts_def)

lemma past_end_base:
  assumes "same_consts it s" "status s = status it"
  shows "past_end s es = past_end it es"
proof (cases "es = []")
  case True
  then show ?thesis using assms
    by (intro Iter_eqI) (simp_all add: past_end_def same_consts_def)
next
  case False
  then show ?thesis using assms at_entry_base [OF assms]
    by (simp add: past_end_def same_consts_def)
qed

lemma seek_result_base:
  assumes "same_consts it s" "status s = status it"
  shows "seek_result s es t L = seek_result it es t L"
  using consts_seek_index [OF assms(1)] past_end_base [OF assms] at_entry_base [OF assms]
  by (simp add: seek_result_def)

lemma dropWhile_seek_index:
  "dropWhile (\<lambda>e. Compare it (e_key e) t < 0) es
     = (if seek_index it es t < length es
        then es ! seek_index it es t # drop (Suc (seek_index it es t)) es else [])"
proof -
  have "dropWhile (\<lambda>e. Compare it (e_key e) t < 0) es = drop (seek_index it es t) es"
    by (simp add: seek_index_def dropWhile_eq_drop)
  then show ?thesis
    using seek_index_le [of it es t] by (simp add: Cons_nth_drop_Suc)
qed

lemma reachable_facts:
  assumes "well_formed it0 es" "comparator_ok (comparator it0)"
    and "Iter_init (comparator it0) (data it0) (restarts it0) (num_restarts it0) = Some it0"
    and "Iter_ops ops it0 = Some it"
  shows "well_formed it es" "comparator_ok (comparator it)" "positioned it es"
    "status it = OK"
proof -
  from Iter_init_positioned [OF assms(3)] have p: "positioned it0 es" "status it0 = OK"
    by simp_all
  from Iter_ops_positioned [OF assms(1,2) p(1) assms(4)] have
    q: "positioned it es" "same_consts it0 it" "status it = status it0" by simp_all
  show "well_formed it es" using wf_consts [OF assms(1) q(2)] .
  show "comparator_ok (comparator it)" using assms(2) q(2) by (simp add: same_consts_def)
  show "positioned it es" using q(1) .
  show "status it = OK" using q(3) p(2) by simp
qed

text \<open>
  Claim C1. On a well-formed block with the entries \<open>es\<close>, sorted under a comparator
  that orders the keys, and from every state that the iterator reaches after its
  construction, \<open>Seek target\<close> returns with status ok and leaves the iterator on the
  first entry whose key is not less than the target: on the entry whose key equals the
  target when there is one, and not Valid when every key is less than the target.
\<close>

theorem Seek_first_not_less:
  assumes "well_formed it0 es" and "comparator_ok (comparator it0)"
    and "Iter_init (comparator it0) (data it0) (restarts it0) (num_restarts it0) = Some it0"
    and "Iter_ops ops it0 = Some it"
  shows "\<exists>it'. Seek it target = Some it' \<and> status it' = OK \<and>
           (case dropWhile (\<lambda>e. Compare it (e_key e) target < 0) es of
              [] \<Rightarrow> \<not> Valid it'
            | e # _ \<Rightarrow> Valid it' \<and> on_entry it' e) \<and>
           (\<forall>e \<in> set es. Compare it (e_key e) target = 0 \<longrightarrow> Valid it' \<and> on_entry it' e)"
proof -
  note r = reachable_facts [OF assms]
  let ?m = "seek_index it es target"
  from Seek_result [OF r(1-3), of target] obtain L where
    L: "Seek it target = Some (seek_result it es target L)" by blast
  let ?it' = "seek_result it es target L"
  have st: "status ?it' = OK" using r(4) by simp
  have a: "Valid ?it' \<and> on_entry ?it' (es ! ?m)" if "?m < length es"
    using that Valid_at_entry [OF r(1) that, of L] by (simp add: seek_result_def)
  have b: "\<not> Valid ?it'" if "\<not> ?m < length es"
    using that by (simp add: seek_result_def)
  have c: "case dropWhile (\<lambda>e. Compare it (e_key e) target < 0) es of
              [] \<Rightarrow> \<not> Valid ?it'
            | e # _ \<Rightarrow> Valid ?it' \<and> on_entry ?it' e"
    using a b by (simp add: dropWhile_seek_index)
  have d: "\<forall>e \<in> set es. Compare it (e_key e) target = 0 \<longrightarrow> Valid ?it' \<and> on_entry ?it' e"
  proof (intro ballI impI)
    fix e assume "e \<in> set es" and eq: "Compare it (e_key e) target = 0"
    then obtain k where k: "k < length es" "e = es ! k" by (auto simp: in_set_conv_nth)
    from seek_index_equal [OF r(1,2) k(1), of target] eq k(2) have "?m = k" by simp
    with a k show "Valid ?it' \<and> on_entry ?it' e" by simp
  qed
  from L st c d show ?thesis by blast
qed

text \<open>
  On the example block, after \<open>SeekToLast\<close>, the target "aa" is absent:
  \<open>Seek\<close> lands on the entry of "ab".
\<close>

theorem Seek_first_not_less_witness:
  "well_formed example_iter example_entries \<and>
   comparator_ok (comparator example_iter) \<and>
   Iter_init (comparator example_iter) (data example_iter) (restarts example_iter)
     (num_restarts example_iter) = Some example_iter \<and>
   Iter_ops [OpSeekToLast] example_iter = Some (example_at 10 1 [0x62] 14) \<and>
   (\<exists>it'. Seek (example_at 10 1 [0x62] 14) [0x61, 0x61] = Some it' \<and> status it' = OK \<and>
          Valid it' \<and> on_entry it' (example_entries ! 1))"
proof -
  have b: "comparator_ok (comparator example_iter)"
    using BytewiseCompare_ok by (simp add: example_iter_def)
  have c: "Iter_init (comparator example_iter) (data example_iter) (restarts example_iter)
     (num_restarts example_iter) = Some example_iter"
    by (simp add: example_iter_def Iter_init_def)
  have d: "Iter_ops [OpSeekToLast] example_iter = Some (example_at 10 1 [0x62] 14)"
    by (simp add: example_eval)
  have e: "dropWhile (\<lambda>e. Compare (example_at 10 1 [0x62] 14) (e_key e) [0x61, 0x61] < 0)
             example_entries = drop 1 example_entries"
    by (simp add: example_entries_def Compare_def example_at_def example_iter_def
          BytewiseCompare_def)
  from Seek_first_not_less [OF example_well_formed b c d, of "[0x61, 0x61]"]
  have "\<exists>it'. Seek (example_at 10 1 [0x62] 14) [0x61, 0x61] = Some it' \<and> status it' = OK \<and>
          Valid it' \<and> on_entry it' (example_entries ! 1)"
    unfolding e by (auto simp: example_entries_def)
  with example_well_formed b c d show ?thesis by blast
qed

text \<open>
  Claim C6. On a well-formed block, from every state that the iterator reaches after
  its construction, \<open>Seek target\<close> returns a state on which a second \<open>Seek target\<close>
  returns the same state: the same key, value, offsets, restart index and status.
  When the iterator is Valid and its key equals the target, \<open>Seek\<close> returns the state
  unchanged.
\<close>

theorem Seek_twice:
  assumes "well_formed it0 es" and "comparator_ok (comparator it0)"
    and "Iter_init (comparator it0) (data it0) (restarts it0) (num_restarts it0) = Some it0"
    and "Iter_ops ops it0 = Some it"
  shows "(\<exists>it1. Seek it target = Some it1 \<and> Seek it1 target = Some it1) \<and>
         (Valid it \<and> Compare it (key it) target = 0 \<longrightarrow> Seek it target = Some it)"
proof -
  note r = reachable_facts [OF assms]
  have early: "Seek it1 target = Some it1" if "Valid it1 \<and> Compare it1 (key it1) target = 0"
    for it1 using that by (simp add: Seek_def)
  have "\<exists>it1. Seek it target = Some it1 \<and> Seek it1 target = Some it1"
  proof (cases "Valid it \<and> Compare it (key it) target = 0")
    case True
    then show ?thesis using early by blast
  next
    case False
    let ?T = "offset_of it es (seek_index it es target)"
    from Seek_wf [OF r(1-3), of target] False obtain L where
      L: "restart_bound it ?T L" "Seek it target = Some (seek_result it es target L)" by auto
    let ?it1 = "seek_result it es target L"
    have s: "same_consts it ?it1" "status ?it1 = status it" by simp_all
    have w1: "well_formed ?it1 es" using wf_consts [OF r(1) s(1)] .
    have c1: "comparator_ok (comparator ?it1)" using r(2) s(1) by (simp add: same_consts_def)
    from restart_bound_region [OF r(1) L(1) seek_index_le]
    have "seek_index it es target < length es \<longrightarrow>
            region_ok it (e_offset (es ! seek_index it es target)) L"
      by (auto simp: offset_of_def)
    then have p1: "positioned ?it1 es" by (rule positioned_seek_result [OF r(1)])
    have "Seek ?it1 target = Some ?it1"
    proof (cases "Valid ?it1 \<and> Compare ?it1 (key ?it1) target = 0")
      case True
      then show ?thesis by (rule early)
    next
      case False
      with Seek_wf [OF w1 c1 p1, of target] obtain L' where
        L': "restart_bound ?it1 (offset_of ?it1 es (seek_index ?it1 es target)) L'"
            "Seek ?it1 target = Some (seek_result ?it1 es target L')" by auto
      from L'(1) have "restart_bound it ?T L'"
        using consts_restart_bound [OF s(1)] consts_offset_of [OF s(1)]
          consts_seek_index [OF s(1)] by simp
      from restart_bound_unique [OF r(1) this L(1)] have "L' = L" .
      then show ?thesis using L'(2) seek_result_base [OF s] by simp
    qed
    with L(2) show ?thesis by blast
  qed
  then show ?thesis using early by blast
qed

text \<open>On the example block, after \<open>SeekToLast\<close>, with the target "aa".\<close>

theorem Seek_twice_witness:
  "well_formed example_iter example_entries \<and>
   comparator_ok (comparator example_iter) \<and>
   Iter_init (comparator example_iter) (data example_iter) (restarts example_iter)
     (num_restarts example_iter) = Some example_iter \<and>
   Iter_ops [OpSeekToLast] example_iter = Some (example_at 10 1 [0x62] 14) \<and>
   (\<exists>it1. Seek (example_at 10 1 [0x62] 14) [0x61, 0x61] = Some it1 \<and>
          Seek it1 [0x61, 0x61] = Some it1)"
proof -
  have b: "comparator_ok (comparator example_iter)"
    using BytewiseCompare_ok by (simp add: example_iter_def)
  have c: "Iter_init (comparator example_iter) (data example_iter) (restarts example_iter)
     (num_restarts example_iter) = Some example_iter"
    by (simp add: example_iter_def Iter_init_def)
  have d: "Iter_ops [OpSeekToLast] example_iter = Some (example_at 10 1 [0x62] 14)"
    by (simp add: example_eval)
  from Seek_twice [OF example_well_formed b c d, of "[0x61, 0x61]"]
    example_well_formed b c d show ?thesis by blast
qed

text \<open>
  Claim C8 as stated fails on the example block. The constructor leaves \<open>value_\<close>
  default-constructed: it is no view into the block, a forward parse from the fresh
  state has no offset to start from, and \<open>Next\<close> fails its assertion \<open>Valid()\<close>. The
  parse from restart point 0 is what gives the first entry.
\<close>

theorem fresh_iterator_counterexample:
  "Iter_init BytewiseCompare example_data 15 2 = Some example_iter \<and>
   value_data example_iter = NotInData \<and>
   NextEntryOffset example_iter = None \<and>
   ParseNextKey example_iter = None \<and>
   Next example_iter = None \<and>
   GetRestartPoint example_iter 0 = Some 0 \<and>
   SeekToRestartPoint example_iter 0 = Some (restart_state example_iter 0) \<and>
   ParseNextKey (restart_state example_iter 0) = Some (True, example_at 0 0 [0x61] 4)"
  by (simp add: example_eval restart_state_def)

text \<open>
  Claim C8, amended. A newly constructed live iterator is not Valid, with
  \<open>current = restarts\<close> and \<open>restart_index = num_restarts\<close>; its key is empty and its
  value is the default, zero-length view, which is not placed at restart point 0 or
  anywhere in the block, so that \<open>Next\<close> and a forward parse from the fresh state give
  no entry. On a well-formed block \<open>SeekToFirst\<close>, which moves to restart point 0
  before it parses, gives the first entry.
\<close>

theorem fresh_iterator:
  assumes "Iter_init cmp d r n = Some it"
  shows "\<not> Valid it \<and> current it = restarts it \<and> restart_index it = num_restarts it \<and>
         key it = [] \<and> value_data it = NotInData \<and> value_size it = 0 \<and> status it = OK \<and>
         Next it = None \<and> ParseNextKey it = None \<and>
         (\<forall>es. well_formed it es \<and> es \<noteq> [] \<longrightarrow>
            SeekToFirst it = Some (at_entry it (es ! 0) 0))"
proof -
  from assms have i: "it = \<lparr>comparator = cmp, data = d, restarts = r,
                 num_restarts = n, current = r,
                 restart_index = n, key = [],
                 value_data = NotInData, value_size = 0, status = OK\<rparr>"
    by (simp add: Iter_init_def split: if_splits)
  have v: "\<not> Valid it" by (simp add: i Valid_def)
  have p: "ParseNextKey it = None" by (simp add: ParseNextKey_None i)
  have "\<forall>es. well_formed it es \<and> es \<noteq> [] \<longrightarrow> SeekToFirst it = Some (at_entry it (es ! 0) 0)"
  proof (intro allI impI)
    fix es assume "well_formed it es \<and> es \<noteq> []"
    then show "SeekToFirst it = Some (at_entry it (es ! 0) 0)"
      using SeekToFirst_wf(1) [of it es] by simp
  qed
  then show ?thesis using v p by (simp add: Next_def) (simp add: i)
qed

theorem fresh_iterator_witness:
  "Iter_init BytewiseCompare example_data 15 2 = Some example_iter \<and>
   well_formed example_iter example_entries \<and>
   \<not> Valid example_iter \<and> Next example_iter = None \<and>
   SeekToFirst example_iter = Some (at_entry example_iter (example_entries ! 0) 0)"
proof -
  have a: "Iter_init BytewiseCompare example_data 15 2 = Some example_iter"
    by (simp add: example_iter_def Iter_init_def)
  have "example_entries \<noteq> []" by (simp add: example_entries_def)
  with fresh_iterator [OF a] example_well_formed a show ?thesis by blast
qed

end
